theory Spec2Isabelle
  imports
    Complex_Main
    "HOL-Library.Word"
    "HOL-Library.Char_ord"
    "HOL-Library.List_Lexorder"
    "HOL-Library.Product_Lexorder"
    "HOL-Library.Multiset"
begin

unbundle bit_operations_syntax

section \<open>Data model\<close>

text \<open>
  The query programs read Apache Arrow tables. A column is a sequence of chunks; a slot of
  an Arrow array has a validity bit (\<open>IsNull(i)\<close> is its negation) and a raw value in the
  values buffer (\<open>Value(i)\<close>, \<open>raw_values()[i]\<close>), which is there whether or not the slot is
  null. All columns of one chunk of a table have the same length, and every loop of the
  programs walks the columns of a chunk in lockstep with one index, so a chunk is modelled
  as the list of its rows, each row holding one slot per column.

  \<open>int32_t\<close> and \<open>int64_t\<close> are words read as two's complement: comparisons are the signed
  ones (\<open><s\<close>, \<open>\<le>s\<close>). \<open>std::string\<close> is a list of bytes; its \<open>operator<\<close> is the
  lexicographic order on unsigned bytes, which is the order of \<open>char list\<close> here.
\<close>

type_synonym int32 = "32 word"
type_synonym int64 = "64 word"
type_synonym uint8 = "8 word"

record 'a slot =
  valid :: bool
  raw :: 'a

definition IsNull :: "'a slot \<Rightarrow> bool" where
  "IsNull s = (\<not> valid s)"

definition present :: "'a \<Rightarrow> 'a slot" where
  "present v = \<lparr>valid = True, raw = v\<rparr>"

definition null_slot :: "'a \<Rightarrow> 'a slot" where
  "null_slot v = \<lparr>valid = False, raw = v\<rparr>"


section \<open>Binary floating point\<close>

text \<open>
  \<open>double\<close> and \<open>float\<close> are IEEE 754 binary64 and binary32. A finite value of either format
  is a real number, and every operation returns the exact result rounded to the nearest
  value of the format, ties to the even significand. \<open>fp_round p\<close> is that rounding for a
  significand of \<open>p\<close> bits (53 for \<open>double\<close>, 24 for \<open>float\<close>). The exponent is not bounded
  in \<open>fp_round\<close>: the \<open>double\<close> computations and the decoded \<open>float\<close> values below are
  taken inside the normal range of their format, where overflow, subnormal numbers and NaN
  do not occur. This is where the queries compute: a decimal of a Parquet file has a scale
  from 0 to 38 and a value below \<open>2^127\<close> in magnitude, so a decoded value is zero or lies
  between \<open>10^-38\<close> and \<open>2^128\<close>, and the products of three such values and the sums of
  fewer than \<open>2^63\<close> of them that the queries form are far from the bounds of \<open>double\<close>.
  The elements of the vector kernels are arbitrary, and have a model of their own, with
  the bounds of binary32.

  \<open>ilog2 x\<close> is the exponent of \<open>x\<close>: the integer \<open>e\<close> with \<open>2^e \<le> x < 2^(e+1)\<close>.
\<close>

function ilog2 :: "real \<Rightarrow> int" where
  "ilog2 x = (if x \<le> 0 then 0
              else if x < 1 then ilog2 (2 * x) - 1
              else if 2 \<le> x then ilog2 (x / 2) + 1
              else 0)"
  by pat_completeness auto
termination
proof (relation "measure (\<lambda>x. if 1 \<le> x then nat \<lfloor>x\<rfloor> else nat \<lceil>1 / x\<rceil>)")
  show "wf (measure (\<lambda>x::real. if 1 \<le> x then nat \<lfloor>x\<rfloor> else nat \<lceil>1 / x\<rceil>))"
    by simp
next
  fix x :: real
  assume a: "\<not> x \<le> 0" "x < 1"
  have c: "\<lceil>1 / x\<rceil> \<ge> 2" using a by (simp add: le_ceiling_iff field_simps)
  show "(2 * x, x) \<in> measure (\<lambda>x. if 1 \<le> x then nat \<lfloor>x\<rfloor> else nat \<lceil>1 / x\<rceil>)"
  proof (cases "1 \<le> 2 * x")
    case True
    then have "\<lfloor>2 * x\<rfloor> = 1" using a by (simp add: floor_eq_iff)
    then show ?thesis using a c True by simp
  next
    case False
    have "1 / (2 * x) \<le> real_of_int \<lceil>1 / x\<rceil> / 2"
      using a le_of_int_ceiling[of "1 / x"] by (simp add: field_simps)
    then have "\<lceil>1 / (2 * x)\<rceil> \<le> \<lceil>real_of_int \<lceil>1 / x\<rceil> / 2\<rceil>"
      by (rule ceiling_mono)
    also have "\<dots> \<le> (\<lceil>1 / x\<rceil> + 1) div 2"
      by (simp add: ceiling_le_iff)
    also have "\<dots> < \<lceil>1 / x\<rceil>" using c by linarith
    finally show ?thesis using a False c by simp
  qed
next
  fix x :: real
  assume a: "\<not> x \<le> 0" "\<not> x < 1" "2 \<le> x"
  have "\<lfloor>x / 2\<rfloor> \<le> \<lfloor>x\<rfloor> div 2" using floor_divide_real_eq_div[of 2 x] by simp
  moreover have "\<lfloor>x\<rfloor> \<ge> 2" using a by (simp add: le_floor_iff)
  ultimately have "\<lfloor>x / 2\<rfloor> < \<lfloor>x\<rfloor>" by linarith
  moreover have "1 \<le> x / 2" using a by simp
  ultimately show "(x / 2, x) \<in> measure (\<lambda>x. if 1 \<le> x then nat \<lfloor>x\<rfloor> else nat \<lceil>1 / x\<rceil>)"
    using a by simp
qed

declare ilog2.simps [simp del]

definition round_half_even :: "real \<Rightarrow> int" where
  "round_half_even q =
     (let n = \<lfloor>q\<rfloor>; f = q - of_int n in
      if f < 1 / 2 then n
      else if 1 / 2 < f then n + 1
      else if even n then n else n + 1)"

definition fp_round :: "nat \<Rightarrow> real \<Rightarrow> real" where
  "fp_round p x =
     (if x = 0 then 0
      else let u = 2 powi (ilog2 \<bar>x\<bar> - int p + 1)
           in sgn x * of_int (round_half_even (\<bar>x\<bar> / u)) * u)"

type_synonym double = real
type_synonym float32 = real

text \<open>Arithmetic on \<open>double\<close>, and the conversions of 64-bit integers to \<open>double\<close>.\<close>

definition dadd :: "double \<Rightarrow> double \<Rightarrow> double" where
  "dadd x y = fp_round 53 (x + y)"

definition dsub :: "double \<Rightarrow> double \<Rightarrow> double" where
  "dsub x y = fp_round 53 (x - y)"

definition dmul :: "double \<Rightarrow> double \<Rightarrow> double" where
  "dmul x y = fp_round 53 (x * y)"

definition ddiv :: "double \<Rightarrow> double \<Rightarrow> double" where
  "ddiv x y = fp_round 53 (x / y)"

definition double_literal :: "real \<Rightarrow> double" where
  "double_literal x = fp_round 53 x"

definition int64_to_double :: "int64 \<Rightarrow> double" where
  "int64_to_double w = fp_round 53 (of_int (sint w))"

definition uint64_to_double :: "64 word \<Rightarrow> double" where
  "uint64_to_double w = fp_round 53 (of_int (uint w))"

text \<open>
  \<open>std::pow(2.0, 64)\<close> is a power of two and exact; \<open>std::pow(10.0, scale)\<close> is taken as the
  correctly rounded power of ten, which is exact for the scales from 0 to 22.
\<close>

definition pow_2_64 :: double where
  "pow_2_64 = 2 ^ 64"

definition pow_10 :: "int32 \<Rightarrow> double" where
  "pow_10 scale = fp_round 53 (10 powi sint scale)"

text \<open>The cast of a \<open>double\<close> to \<open>float\<close>.\<close>

definition double_to_float :: "double \<Rightarrow> float32" where
  "double_to_float x = fp_round 24 x"

text \<open>
  The arrays that the batch kernels read and write hold arbitrary values of binary32, so
  their elements are modelled with the bounded exponent of the format: a finite value, an
  infinity or NaN. \<open>FLT_MAX\<close> is the largest finite value and \<open>FLT_MIN\<close> the smallest
  normal one; below \<open>FLT_MIN\<close> the values are the multiples of \<open>2^-149\<close>. A result is
  rounded to the nearest value, ties to even, and becomes an infinity when the rounded
  value exceeds \<open>FLT_MAX\<close>. The two zeros of the format are one value here: they compare
  equal, and they differ in no result below.
\<close>

datatype binary32 = Finite real | PosInf | NegInf | NaN

definition FLT_MAX :: real where
  "FLT_MAX = (2 ^ 24 - 1) * 2 ^ 104"

definition FLT_MIN :: real where
  "FLT_MIN = 2 powi (- 126)"

definition round_binary32 :: "real \<Rightarrow> binary32" where
  "round_binary32 x =
     (let r = (if \<bar>x\<bar> < FLT_MIN
               then of_int (round_half_even (x / 2 powi (- 149))) * 2 powi (- 149)
               else fp_round 24 x)
      in if FLT_MAX < r then PosInf else if r < - FLT_MAX then NegInf else Finite r)"

text \<open>
  The element operations of \<open>vfsub.vv\<close> and \<open>vfmul.vv\<close>: IEEE 754 subtraction and
  multiplication in the default rounding mode.
\<close>

fun fsub :: "binary32 \<Rightarrow> binary32 \<Rightarrow> binary32" where
  "fsub (Finite x) (Finite y) = round_binary32 (x - y)"
| "fsub (Finite x) PosInf = NegInf"
| "fsub (Finite x) NegInf = PosInf"
| "fsub PosInf (Finite y) = PosInf"
| "fsub PosInf NegInf = PosInf"
| "fsub PosInf PosInf = NaN"
| "fsub NegInf (Finite y) = NegInf"
| "fsub NegInf PosInf = NegInf"
| "fsub NegInf NegInf = NaN"
| "fsub NaN y = NaN"
| "fsub x NaN = NaN"

fun fmul :: "binary32 \<Rightarrow> binary32 \<Rightarrow> binary32" where
  "fmul (Finite x) (Finite y) = round_binary32 (x * y)"
| "fmul (Finite x) PosInf = (if x = 0 then NaN else if 0 < x then PosInf else NegInf)"
| "fmul (Finite x) NegInf = (if x = 0 then NaN else if 0 < x then NegInf else PosInf)"
| "fmul PosInf (Finite y) = (if y = 0 then NaN else if 0 < y then PosInf else NegInf)"
| "fmul NegInf (Finite y) = (if y = 0 then NaN else if 0 < y then NegInf else PosInf)"
| "fmul PosInf PosInf = PosInf"
| "fmul PosInf NegInf = NegInf"
| "fmul NegInf PosInf = NegInf"
| "fmul NegInf NegInf = PosInf"
| "fmul NaN y = NaN"
| "fmul x NaN = NaN"


section \<open>Decimal128 values\<close>

text \<open>
  \<open>Decimal128Array::Value(i)\<close> points to the 16 bytes of a value: the 128-bit two's
  complement integer, least significant byte first. \<open>memcpy\<close> into an \<open>int64_t\<close> reads eight
  of them, little-endian on the target (RISC-V).

  \<open>arrow::Decimal128\<close> is a library class. Its constructor takes \<open>(int64_t high, uint64_t
  low)\<close>; \<open>high_bits()\<close> returns \<open>int64_t\<close> and \<open>low_bits()\<close> returns \<open>uint64_t\<close>, so the first
  \<open>static_cast<double>\<close> converts a signed integer and the second an unsigned one.
\<close>

type_synonym decimal128_raw = "uint8 list"

definition memcpy_int64 :: "uint8 list \<Rightarrow> nat \<Rightarrow> int64" where
  "memcpy_int64 ptr off = horner_sum ucast (2 ^ 8) (take 8 (drop off ptr))"

record Decimal128 =
  high_bits :: int64
  low_bits :: "64 word"

definition decimal128_bytes_to_double :: "decimal128_raw \<Rightarrow> int32 \<Rightarrow> double" where
  "decimal128_bytes_to_double raw_value_ptr scale =
     (let low = memcpy_int64 raw_value_ptr 0;
          high = memcpy_int64 raw_value_ptr 8;
          decimal_value = \<lparr>high_bits = high, low_bits = low\<rparr>;
          raw_value = dadd (dmul (int64_to_double (high_bits decimal_value)) pow_2_64)
                           (uint64_to_double (low_bits decimal_value))
      in ddiv raw_value (pow_10 scale))"

text \<open>
  The bytes of a 128-bit two's complement integer, as a Parquet reader hands them to the
  programs, and the integer that sixteen bytes stand for.
\<close>

fun le_bytes :: "nat \<Rightarrow> int \<Rightarrow> uint8 list" where
  "le_bytes 0 v = []"
| "le_bytes (Suc n) v = word_of_int v # le_bytes n (v div 256)"

definition decimal128_bytes :: "int \<Rightarrow> decimal128_raw" where
  "decimal128_bytes v = le_bytes 16 v"

definition decimal128_value :: "decimal128_raw \<Rightarrow> int" where
  "decimal128_value bs = sint (horner_sum ucast (2 ^ 8) (take 16 bs) :: 128 word)"

text \<open>
  A decimal column has its scale in its type. The programs read it when the type of the
  chunk is \<open>DECIMAL128\<close> and fall back to 2 otherwise; \<open>None\<close> stands for another type.
\<close>

definition column_scale :: "int32 option \<Rightarrow> int32" where
  "column_scale t = (case t of Some s \<Rightarrow> s | None \<Rightarrow> 2)"



section \<open>Query 9: result ordering\<close>

text \<open>
  \<open>struct Query9Result\<close> with its \<open>operator<\<close>, and \<open>struct NationYearKey\<close>, the key of the
  \<open>std::map\<close> that holds one profit accumulator per group. \<open>sum_profit\<close> is a \<open>double\<close>; the
  ordering never looks at it, so the record is polymorphic in it.
\<close>

record 'p Query9Result =
  nation :: string
  o_year :: int32
  sum_profit :: 'p

definition Query9Result_less :: "'p Query9Result \<Rightarrow> 'p Query9Result \<Rightarrow> bool" where
  "Query9Result_less a b =
     (if nation a \<noteq> nation b then nation a < nation b
      else o_year b <s o_year a)"

record NationYearKey =
  key_nation :: string
  key_year :: int32


text \<open>
  \<open>std::sort(results.begin(), results.end())\<close> sorts with \<open>operator<\<close>. The library routine is
  not part of the repository; it is modelled by insertion sort with the same comparator.
  For a strict weak order every sorting routine returns a sorted permutation, and the
  groups of one map have pairwise different keys, which leaves exactly one such
  permutation.
\<close>

fun insert_sorted :: "('a \<Rightarrow> 'a \<Rightarrow> bool) \<Rightarrow> 'a \<Rightarrow> 'a list \<Rightarrow> 'a list" where
  "insert_sorted lt x [] = [x]"
| "insert_sorted lt x (y # ys) =
     (if lt x y then x # y # ys else y # insert_sorted lt x ys)"

definition std_sort :: "('a \<Rightarrow> 'a \<Rightarrow> bool) \<Rightarrow> 'a list \<Rightarrow> 'a list" where
  "std_sort lt xs = foldr (insert_sorted lt) xs []"

text \<open>
  The loop that turns the map into the vector of results
  (\<open>for (const auto& [key, profit] : profit_by_nation_year) results.push_back(result)\<close>),
  followed by the sort. The map is given by its entries in iteration order.
\<close>

definition to_result :: "NationYearKey \<times> 'p \<Rightarrow> 'p Query9Result" where
  "to_result kp = \<lparr>nation = key_nation (fst kp), o_year = key_year (fst kp), sum_profit = snd kp\<rparr>"

text \<open>The comparator is the lexicographic order of this key.\<close>

definition q9_key :: "'p Query9Result \<Rightarrow> string \<times> int" where
  "q9_key r = (nation r, - sint (o_year r))"

definition project_results :: "(NationYearKey \<times> 'p) list \<Rightarrow> 'p Query9Result list" where
  "project_results groups = std_sort Query9Result_less (map to_result groups)"


section \<open>Query 12 and Query 4: joins\<close>

record Query12Result =
  l_shipmode_of :: string
  high_line_count :: int
  low_line_count :: int

record q12_lineitem =
  l_orderkey :: "int64 slot"
  l_shipmode :: "string slot"
  l_shipdate :: "int32 slot"
  l_commitdate :: "int32 slot"
  l_receiptdate :: "int32 slot"

record orders_row =
  o_orderkey :: "int64 slot"
  o_orderdate :: "int32 slot"
  o_orderpriority :: "string slot"

text \<open>
  Build side of Query 12: the loop over the orders table that fills
  \<open>std::map<int64_t, std::string> order_priorities\<close>. A later row with the same key
  overwrites the earlier one, as \<open>operator[]\<close> does.
\<close>

definition q12_build_row :: "(int64 \<rightharpoonup> string) \<Rightarrow> orders_row \<Rightarrow> (int64 \<rightharpoonup> string)" where
  "q12_build_row order_priorities r =
     (if IsNull (o_orderkey r) \<or> IsNull (o_orderpriority r) then order_priorities
      else order_priorities(raw (o_orderkey r) \<mapsto> raw (o_orderpriority r)))"

definition q12_build :: "orders_row list list \<Rightarrow> (int64 \<rightharpoonup> string)" where
  "q12_build chunks = fold (\<lambda>chunk m. fold (\<lambda>r m'. q12_build_row m' r) chunk m) chunks Map.empty"

text \<open>The state of the probe loop of Query 12 and the body of its inner loop.\<close>

record q12_state =
  results_by_shipmode :: "string \<rightharpoonup> Query12Result"
  rows_processed :: int
  rows_qualified :: int

definition q12_init :: q12_state where
  "q12_init = \<lparr>results_by_shipmode = Map.empty, rows_processed = 0, rows_qualified = 0\<rparr>"

definition target_shipmodes :: "string set" where
  "target_shipmodes = {''MAIL'', ''SHIP''}"

definition bump_priority :: "string \<Rightarrow> Query12Result \<Rightarrow> Query12Result" where
  "bump_priority priority e =
     (if priority = ''1-URGENT'' \<or> priority = ''2-HIGH''
      then e\<lparr>high_line_count := high_line_count e + 1\<rparr>
      else e\<lparr>low_line_count := low_line_count e + 1\<rparr>)"

definition q12_row ::
  "(int64 \<rightharpoonup> string) \<Rightarrow> int32 \<Rightarrow> int32 \<Rightarrow> q12_state \<Rightarrow> q12_lineitem \<Rightarrow> q12_state" where
  "q12_row order_priorities start_date end_date st0 r =
     (let st = st0\<lparr>rows_processed := rows_processed st0 + 1\<rparr> in
      if IsNull (l_orderkey r) \<or> IsNull (l_shipmode r) \<or> IsNull (l_shipdate r)
         \<or> IsNull (l_commitdate r) \<or> IsNull (l_receiptdate r) then st
      else let shipmode = raw (l_shipmode r) in
      if shipmode \<notin> target_shipmodes then st
      else let shipdate = raw (l_shipdate r); commitdate = raw (l_commitdate r);
               receiptdate = raw (l_receiptdate r) in
      if commitdate <s receiptdate \<and> shipdate <s commitdate
         \<and> start_date \<le>s receiptdate \<and> receiptdate <s end_date
      then (case order_priorities (raw (l_orderkey r)) of
              None \<Rightarrow> st
            | Some priority \<Rightarrow>
                let entry = (case results_by_shipmode st shipmode of
                               None \<Rightarrow> \<lparr>l_shipmode_of = shipmode, high_line_count = 0,
                                         low_line_count = 0\<rparr>
                             | Some e \<Rightarrow> e)
                in st\<lparr>results_by_shipmode :=
                         (results_by_shipmode st)(shipmode \<mapsto> bump_priority priority entry),
                       rows_qualified := rows_qualified st + 1\<rparr>)
      else st)"

definition q12_chunk ::
  "(int64 \<rightharpoonup> string) \<Rightarrow> int32 \<Rightarrow> int32 \<Rightarrow> q12_lineitem list \<Rightarrow> q12_state \<Rightarrow> q12_state" where
  "q12_chunk order_priorities start_date end_date rows st =
     fold (\<lambda>r s. q12_row order_priorities start_date end_date s r) rows st"

definition q12_probe ::
  "(int64 \<rightharpoonup> string) \<Rightarrow> int32 \<Rightarrow> int32 \<Rightarrow> q12_lineitem list list \<Rightarrow> q12_state" where
  "q12_probe order_priorities start_date end_date chunks =
     fold (q12_chunk order_priorities start_date end_date) chunks q12_init"

text \<open>
  \<open>date_string_to_days\<close> goes through \<open>mktime\<close>, which reads the process's time zone; the
  day numbers below are its results under UTC.
\<close>

definition date_1994_01_01 :: int32 where "date_1994_01_01 = 8766"
definition date_1995_01_01 :: int32 where "date_1995_01_01 = 9131"
definition date_1993_07_01 :: int32 where "date_1993_07_01 = 8582"
definition date_1993_10_01 :: int32 where "date_1993_10_01 = 8674"

text \<open>
  Query 4 (scalar program): the build side is the set of order keys that have a late line
  item, the probe side the orders of the quarter; the counts are kept per priority.
\<close>

record q4_lineitem =
  q4_orderkey :: "int64 slot"
  q4_commitdate :: "int32 slot"
  q4_receiptdate :: "int32 slot"

definition q4_build_row :: "int64 set \<Rightarrow> q4_lineitem \<Rightarrow> int64 set" where
  "q4_build_row qualifying_orderkeys r =
     (if IsNull (q4_orderkey r) \<or> IsNull (q4_commitdate r) \<or> IsNull (q4_receiptdate r)
      then qualifying_orderkeys
      else if raw (q4_commitdate r) <s raw (q4_receiptdate r)
      then insert (raw (q4_orderkey r)) qualifying_orderkeys
      else qualifying_orderkeys)"

definition q4_build :: "q4_lineitem list list \<Rightarrow> int64 set" where
  "q4_build chunks = fold (\<lambda>chunk s. fold (\<lambda>r s'. q4_build_row s' r) chunk s) chunks {}"

definition q4_row ::
  "int64 set \<Rightarrow> int32 \<Rightarrow> int32 \<Rightarrow> (string \<rightharpoonup> int) \<Rightarrow> orders_row \<Rightarrow> (string \<rightharpoonup> int)" where
  "q4_row qualifying_orderkeys start_date end_date priority_counts r =
     (if IsNull (o_orderkey r) \<or> IsNull (o_orderdate r) \<or> IsNull (o_orderpriority r)
      then priority_counts
      else let order_date = raw (o_orderdate r); order_key = raw (o_orderkey r) in
      if start_date \<le>s order_date \<and> order_date <s end_date then
        (if order_key \<in> qualifying_orderkeys
         then let priority = raw (o_orderpriority r) in
              priority_counts(priority \<mapsto>
                (case priority_counts priority of None \<Rightarrow> 0 | Some c \<Rightarrow> c) + 1)
         else priority_counts)
      else priority_counts)"

definition q4_chunk ::
  "int64 set \<Rightarrow> int32 \<Rightarrow> int32 \<Rightarrow> orders_row list \<Rightarrow> (string \<rightharpoonup> int) \<Rightarrow> (string \<rightharpoonup> int)" where
  "q4_chunk qualifying_orderkeys start_date end_date rows priority_counts =
     fold (\<lambda>r m. q4_row qualifying_orderkeys start_date end_date m r) rows priority_counts"

definition q4_probe ::
  "int64 set \<Rightarrow> int32 \<Rightarrow> int32 \<Rightarrow> orders_row list list \<Rightarrow> (string \<rightharpoonup> int)" where
  "q4_probe qualifying_orderkeys start_date end_date chunks =
     fold (q4_chunk qualifying_orderkeys start_date end_date) chunks Map.empty"

text \<open>
  The join scenario of the specification: the build side has the keys 1 and 2, the probe
  side three rows with the keys 1, 1 and 3, each of which passes the filters of Query 12.
\<close>

definition scenarioB_orders :: "orders_row list" where
  "scenarioB_orders =
     [\<lparr>o_orderkey = present 1, o_orderdate = present 8600,
       o_orderpriority = present ''1-URGENT''\<rparr>,
      \<lparr>o_orderkey = present 2, o_orderdate = present 8600,
       o_orderpriority = present ''5-LOW''\<rparr>]"

definition scenarioB_item :: "int64 \<Rightarrow> q12_lineitem" where
  "scenarioB_item k =
     \<lparr>l_orderkey = present k, l_shipmode = present ''MAIL'', l_shipdate = present 8800,
      l_commitdate = present 8810, l_receiptdate = present 8820\<rparr>"

section \<open>Query 6 (scalar program)\<close>

record q6_row =
  q6_shipdate :: "int32 slot"
  q6_quantity :: "decimal128_raw slot"
  q6_extendedprice :: "decimal128_raw slot"
  q6_discount :: "decimal128_raw slot"

record q6_chunk =
  q6_quantity_type :: "int32 option"
  q6_extendedprice_type :: "int32 option"
  q6_discount_type :: "int32 option"
  q6_rows :: "q6_row list"

record q6_state =
  total_revenue :: double
  q6_rows_processed :: int
  q6_rows_qualified :: int

definition q6_init :: q6_state where
  "q6_init = \<lparr>total_revenue = 0, q6_rows_processed = 0, q6_rows_qualified = 0\<rparr>"

definition min_discount :: double where "min_discount = double_literal (5 / 100)"
definition max_discount :: double where "max_discount = double_literal (7 / 100)"
definition max_quantity :: double where "max_quantity = double_literal 24"

definition q6_row_step ::
  "int32 \<Rightarrow> int32 \<Rightarrow> int32 \<Rightarrow> int32 \<Rightarrow> int32 \<Rightarrow> q6_state \<Rightarrow> q6_row \<Rightarrow> q6_state" where
  "q6_row_step quantity_scale price_scale discount_scale start_date end_date st0 r =
     (let st = st0\<lparr>q6_rows_processed := q6_rows_processed st0 + 1\<rparr> in
      if IsNull (q6_shipdate r) \<or> IsNull (q6_quantity r) \<or> IsNull (q6_extendedprice r)
         \<or> IsNull (q6_discount r) then st
      else let shipdate = raw (q6_shipdate r);
               quantity = decimal128_bytes_to_double (raw (q6_quantity r)) quantity_scale;
               extendedprice = decimal128_bytes_to_double (raw (q6_extendedprice r)) price_scale;
               discount = decimal128_bytes_to_double (raw (q6_discount r)) discount_scale in
      if start_date \<le>s shipdate \<and> shipdate <s end_date
         \<and> min_discount \<le> discount \<and> discount \<le> max_discount
         \<and> quantity < max_quantity
      then let revenue = dmul extendedprice discount in
           st\<lparr>total_revenue := dadd (total_revenue st) revenue,
              q6_rows_qualified := q6_rows_qualified st + 1\<rparr>
      else st)"

definition q6_chunk_step :: "int32 \<Rightarrow> int32 \<Rightarrow> q6_chunk \<Rightarrow> q6_state \<Rightarrow> q6_state" where
  "q6_chunk_step start_date end_date chunk st =
     (let quantity_scale = column_scale (q6_quantity_type chunk);
          price_scale = column_scale (q6_extendedprice_type chunk);
          discount_scale = column_scale (q6_discount_type chunk)
      in fold (\<lambda>r s. q6_row_step quantity_scale price_scale discount_scale start_date end_date s r)
           (q6_rows chunk) st)"

definition q6_main :: "q6_chunk list \<Rightarrow> q6_state" where
  "q6_main chunks = fold (q6_chunk_step date_1994_01_01 date_1995_01_01) chunks q6_init"

text \<open>
  Scenario A of the specification: one row with ship date 1994-03-01 (day 8825), discount
  0.06, quantity 10 and price 1000, in columns of type \<open>decimal128(15, 2)\<close>.
\<close>

definition scenarioA :: "q6_chunk list" where
  "scenarioA =
     [\<lparr>q6_quantity_type = Some 2, q6_extendedprice_type = Some 2, q6_discount_type = Some 2,
       q6_rows = [\<lparr>q6_shipdate = present 8825,
                   q6_quantity = present (decimal128_bytes 1000),
                   q6_extendedprice = present (decimal128_bytes 100000),
                   q6_discount = present (decimal128_bytes 6)\<rparr>]\<rparr>]"

section \<open>The vector unit and the batch kernels\<close>

text \<open>
  The kernels are written with the RISC-V vector intrinsics for 32-bit elements and a
  register group of eight registers (\<open>e32m8\<close>). The length \<open>VLEN\<close> of a vector register in
  bits is a power of two and at least 128 where the V extension is implemented (the
  programs are built for \<open>rv64gcv\<close>); it is \<open>128 * 2^hw\<close> for the hardware parameter \<open>hw\<close>.
  A register group then holds \<open>VLMAX = 8 * VLEN / 32\<close> elements, and \<open>vsetvl\<close> grants
  \<open>min(avl, VLMAX)\<close> elements.
\<close>

definition VLMAX_e32m8 :: "nat \<Rightarrow> nat" where
  "VLMAX_e32m8 hw = 8 * (128 * 2 ^ hw) div 32"

definition vsetvl_e32m8 :: "nat \<Rightarrow> nat \<Rightarrow> nat" where
  "vsetvl_e32m8 hw avl = min avl (VLMAX_e32m8 hw)"

text \<open>
  The loop \<open>for (; i < n; i += vl) { vl = vsetvl(n - i); ... }\<close> that every kernel is built
  on. The body gets the position \<open>i\<close> and the granted length \<open>vl\<close>; \<open>None\<close> is a read or
  write outside a buffer, which is undefined behaviour in the program.
\<close>

function strip_mine ::
  "nat \<Rightarrow> (nat \<Rightarrow> nat \<Rightarrow> 's \<Rightarrow> 's option) \<Rightarrow> nat \<Rightarrow> nat \<Rightarrow> 's \<Rightarrow> 's option" where
  "strip_mine hw body n i s =
     (if i < n then
        (case body i (vsetvl_e32m8 hw (n - i)) s of
           None \<Rightarrow> None
         | Some s' \<Rightarrow> strip_mine hw body n (i + vsetvl_e32m8 hw (n - i)) s')
      else Some s)"
  by pat_completeness auto
termination
proof (relation "measure (\<lambda>(hw, body, n, i, s). n - i)")
  show "wf (measure (\<lambda>(hw, body, n, i, s). n - i))" by simp
next
  fix hw :: nat and body :: "nat \<Rightarrow> nat \<Rightarrow> 's \<Rightarrow> 's option" and n i :: nat and s x2 :: 's
  assume "i < n"
  then have "0 < vsetvl_e32m8 hw (n - i)"
    by (simp add: vsetvl_e32m8_def VLMAX_e32m8_def)
  then show "((hw, body, n, i + vsetvl_e32m8 hw (n - i), x2), hw, body, n, i, s)
             \<in> measure (\<lambda>(hw, body, n, i, s). n - i)"
    using \<open>i < n\<close> by simp
qed

declare strip_mine.simps [simp del]

text \<open>Unit-stride loads and stores of \<open>vl\<close> elements at \<open>base + i\<close>.\<close>

definition vle32 :: "'a list \<Rightarrow> nat \<Rightarrow> nat \<Rightarrow> 'a list option" where
  "vle32 base i vl = (if i + vl \<le> length base then Some (take vl (drop i base)) else None)"

definition vse32 :: "'a list \<Rightarrow> nat \<Rightarrow> 'a list \<Rightarrow> 'a list option" where
  "vse32 base i v =
     (if i + length v \<le> length base then Some (take i base @ v @ drop (i + length v) base)
      else None)"

definition compute_disc_price_body ::
  "binary32 list \<Rightarrow> binary32 list \<Rightarrow> nat \<Rightarrow> nat \<Rightarrow> binary32 list \<Rightarrow> binary32 list option" where
  "compute_disc_price_body extendedprice discount i vl result =
     (case vle32 extendedprice i vl of
        None \<Rightarrow> None
      | Some v_price \<Rightarrow>
          (case vle32 discount i vl of
             None \<Rightarrow> None
           | Some v_discount \<Rightarrow>
               let v_one = replicate vl (Finite 1);
                   v_one_minus_discount = map2 fsub v_one v_discount;
                   v_disc_price = map2 fmul v_price v_one_minus_discount
               in vse32 result i v_disc_price))"

definition compute_disc_price_rvv ::
  "nat \<Rightarrow> binary32 list \<Rightarrow> binary32 list \<Rightarrow> binary32 list \<Rightarrow> nat \<Rightarrow> binary32 list option" where
  "compute_disc_price_rvv hw extendedprice discount result n =
     strip_mine hw (compute_disc_price_body extendedprice discount) n 0 result"

text \<open>
  The scalar reference of the kernel in Query 1, in \<open>double\<close>, and the same expression in
  \<open>float\<close>, which is what one element of the vector computation evaluates. An element
  agrees with the reference when it is finite and within the relative tolerance \<open>1e-5\<close>.
\<close>

definition disc_price :: "double \<Rightarrow> double \<Rightarrow> double" where
  "disc_price extendedprice discount = dmul extendedprice (dsub 1 discount)"

definition disc_price_f32 :: "binary32 \<Rightarrow> binary32 \<Rightarrow> binary32" where
  "disc_price_f32 p d = fmul p (fsub (Finite 1) d)"

definition within_tolerance :: "binary32 \<Rightarrow> double \<Rightarrow> bool" where
  "within_tolerance out reference =
     (case out of Finite x \<Rightarrow> \<bar>x - reference\<bar> \<le> 1 / 100000 * \<bar>reference\<bar> | _ \<Rightarrow> False)"

text \<open>
  A value that is zero or whose magnitude lies between \<open>2^-125\<close> and \<open>2^127\<close>: well inside
  the normal range of binary32, so that neither it nor a value within one rounding error
  of it overflows or is subnormal.
\<close>

definition normal_range :: "real \<Rightarrow> bool" where
  "normal_range x = (x = 0 \<or> (2 powi (- 125) \<le> \<bar>x\<bar> \<and> \<bar>x\<bar> \<le> 2 ^ 127))"

text \<open>
  The mask kernels. Bit \<open>i\<close> of the result is bit \<open>i mod 8\<close> of byte \<open>i div 8\<close>; the callers
  read it back as \<open>(mask[byte_index] & (1 << bit_index)) != 0\<close>, which is \<open>mask_bit\<close>. The
  kernels compute a vector mask and then never read it: the bits are set by a scalar loop
  over the \<open>vl\<close> elements, \<open>store_mask_bits\<close>, with the element test passed as \<open>cond\<close>.
\<close>

definition mask_bit :: "uint8 list \<Rightarrow> nat \<Rightarrow> bool" where
  "mask_bit bytes i = bit (bytes ! (i div 8)) (i mod 8)"

definition set_mask_bit :: "uint8 list \<Rightarrow> nat \<Rightarrow> uint8 list option" where
  "set_mask_bit results idx =
     (let byte_index = idx div 8; bit_index = idx mod 8 in
      if byte_index < length results
      then Some (results[byte_index := results ! byte_index OR push_bit bit_index 1])
      else None)"

fun store_mask_bits ::
  "(nat \<Rightarrow> bool option) \<Rightarrow> nat \<Rightarrow> nat list \<Rightarrow> uint8 list \<Rightarrow> uint8 list option" where
  "store_mask_bits cond i [] results = Some results"
| "store_mask_bits cond i (j # js) results =
     (case cond (i + j) of
        None \<Rightarrow> None
      | Some c \<Rightarrow>
          if c then (case set_mask_bit results (i + j) of
                       None \<Rightarrow> None
                     | Some results' \<Rightarrow> store_mask_bits cond i js results')
          else store_mask_bits cond i js results)"

definition late_at :: "int32 list \<Rightarrow> int32 list \<Rightarrow> nat \<Rightarrow> bool option" where
  "late_at commitdates receiptdates idx =
     (if idx < length commitdates \<and> idx < length receiptdates
      then Some (commitdates ! idx <s receiptdates ! idx) else None)"

definition check_late_delivery_body ::
  "int32 list \<Rightarrow> int32 list \<Rightarrow> nat \<Rightarrow> nat \<Rightarrow> uint8 list \<Rightarrow> uint8 list option" where
  "check_late_delivery_body commitdates receiptdates i vl results =
     (case vle32 commitdates i vl of
        None \<Rightarrow> None
      | Some v_commit \<Rightarrow>
          (case vle32 receiptdates i vl of
             None \<Rightarrow> None
           | Some v_receipt \<Rightarrow>
               let v_mask = map2 (\<lambda>a b. a <s b) v_commit v_receipt
               in store_mask_bits (late_at commitdates receiptdates) i [0..<vl] results))"

definition check_late_delivery_rvv ::
  "nat \<Rightarrow> int32 list \<Rightarrow> int32 list \<Rightarrow> uint8 list \<Rightarrow> nat \<Rightarrow> uint8 list option" where
  "check_late_delivery_rvv hw commitdates receiptdates results len =
     strip_mine hw (check_late_delivery_body commitdates receiptdates) len 0 results"


definition shipping_at ::
  "int32 list \<Rightarrow> int32 list \<Rightarrow> int32 list \<Rightarrow> int32 \<Rightarrow> int32 \<Rightarrow> nat \<Rightarrow> bool option" where
  "shipping_at shipdate commitdate receiptdate start_date end_date idx =
     (if idx < length shipdate \<and> idx < length commitdate \<and> idx < length receiptdate
      then Some (commitdate ! idx <s receiptdate ! idx
                 \<and> shipdate ! idx <s commitdate ! idx
                 \<and> start_date \<le>s receiptdate ! idx
                 \<and> receiptdate ! idx <s end_date)
      else None)"

definition check_shipping_conditions_body ::
  "int32 list \<Rightarrow> int32 list \<Rightarrow> int32 list \<Rightarrow> int32 \<Rightarrow> int32
   \<Rightarrow> nat \<Rightarrow> nat \<Rightarrow> uint8 list \<Rightarrow> uint8 list option" where
  "check_shipping_conditions_body shipdate commitdate receiptdate start_date end_date i vl results =
     (case vle32 shipdate i vl of
        None \<Rightarrow> None
      | Some v_shipdate \<Rightarrow>
     (case vle32 commitdate i vl of
        None \<Rightarrow> None
      | Some v_commitdate \<Rightarrow>
     (case vle32 receiptdate i vl of
        None \<Rightarrow> None
      | Some v_receiptdate \<Rightarrow>
          let v_start_date = replicate vl start_date;
              v_end_date = replicate vl end_date;
              condition1 = map2 (\<lambda>a b. a <s b) v_commitdate v_receiptdate;
              condition2 = map2 (\<lambda>a b. a <s b) v_shipdate v_commitdate;
              condition3 = map2 (\<lambda>a b. b \<le>s a) v_receiptdate v_start_date;
              condition4 = map2 (\<lambda>a b. a <s b) v_receiptdate v_end_date;
              all_conditions = map2 (\<and>) (map2 (\<and>) (map2 (\<and>) condition1 condition2) condition3)
                                 condition4
          in store_mask_bits (shipping_at shipdate commitdate receiptdate start_date end_date)
               i [0..<vl] results)))"

definition check_shipping_conditions_rvv ::
  "nat \<Rightarrow> int32 list \<Rightarrow> int32 list \<Rightarrow> int32 list \<Rightarrow> int32 \<Rightarrow> int32
   \<Rightarrow> uint8 list \<Rightarrow> nat \<Rightarrow> uint8 list option" where
  "check_shipping_conditions_rvv hw shipdate commitdate receiptdate start_date end_date results len =
     strip_mine hw (check_shipping_conditions_body shipdate commitdate receiptdate
                      start_date end_date) len 0 results"

text \<open>
  Query 12, RVV program (\<open>RunQuery12\<close>). The orders side is built as in the scalar program.
  For each chunk of line items the kernel gets the raw value buffers of the three date
  columns (\<open>raw_values()\<close>); the loop over the rows then reads the mask and tests only the
  order key and the ship mode for null.
\<close>

definition rvv_q12_row ::
  "(int64 \<rightharpoonup> string) \<Rightarrow> uint8 list \<Rightarrow> q12_state \<Rightarrow> nat \<times> q12_lineitem \<Rightarrow> q12_state" where
  "rvv_q12_row order_priorities qualified_mask st ir =
     (let i = fst ir; r = snd ir; qualified = mask_bit qualified_mask i in
      if \<not> qualified then st
      else if IsNull (l_orderkey r) \<or> IsNull (l_shipmode r) then st
      else let shipmode = raw (l_shipmode r) in
      if shipmode \<notin> target_shipmodes then st
      else (case order_priorities (raw (l_orderkey r)) of
              None \<Rightarrow> st
            | Some priority \<Rightarrow>
                let entry = (case results_by_shipmode st shipmode of
                               None \<Rightarrow> \<lparr>l_shipmode_of = shipmode, high_line_count = 0,
                                         low_line_count = 0\<rparr>
                             | Some e \<Rightarrow> e)
                in st\<lparr>results_by_shipmode :=
                         (results_by_shipmode st)(shipmode \<mapsto> bump_priority priority entry),
                       rows_qualified := rows_qualified st + 1\<rparr>))"

definition rvv_q12_chunk ::
  "nat \<Rightarrow> (int64 \<rightharpoonup> string) \<Rightarrow> int32 \<Rightarrow> int32 \<Rightarrow> q12_lineitem list \<Rightarrow> q12_state
   \<Rightarrow> q12_state option" where
  "rvv_q12_chunk hw order_priorities start_date end_date rows st =
     (let num_rows = length rows;
          st1 = st\<lparr>rows_processed := rows_processed st + int num_rows\<rparr>;
          num_bytes = (num_rows + 7) div 8;
          qualified_mask = replicate num_bytes 0
      in case check_shipping_conditions_rvv hw (map (\<lambda>r. raw (l_shipdate r)) rows)
                (map (\<lambda>r. raw (l_commitdate r)) rows) (map (\<lambda>r. raw (l_receiptdate r)) rows)
                start_date end_date qualified_mask num_rows of
           None \<Rightarrow> None
         | Some qualified_mask' \<Rightarrow>
             Some (fold (\<lambda>ir s. rvv_q12_row order_priorities qualified_mask' s ir)
                     (enumerate 0 rows) st1))"

fun rvv_q12_chunks ::
  "nat \<Rightarrow> (int64 \<rightharpoonup> string) \<Rightarrow> int32 \<Rightarrow> int32 \<Rightarrow> q12_lineitem list list \<Rightarrow> q12_state
   \<Rightarrow> q12_state option" where
  "rvv_q12_chunks hw order_priorities start_date end_date [] st = Some st"
| "rvv_q12_chunks hw order_priorities start_date end_date (chunk # chunks) st =
     (case rvv_q12_chunk hw order_priorities start_date end_date chunk st of
        None \<Rightarrow> None
      | Some st' \<Rightarrow> rvv_q12_chunks hw order_priorities start_date end_date chunks st')"

definition RunQuery12 :: "nat \<Rightarrow> orders_row list list \<Rightarrow> q12_lineitem list list \<Rightarrow> q12_state option" where
  "RunQuery12 hw orders_chunks lineitem_chunks =
     rvv_q12_chunks hw (q12_build orders_chunks) date_1994_01_01 date_1995_01_01
       lineitem_chunks q12_init"

text \<open>
  A line item whose ship date is null. The slot of a null value in the values buffer holds
  0 here, which is what a Parquet reader leaves there.
\<close>

definition null_shipdate_item :: q12_lineitem where
  "null_shipdate_item =
     \<lparr>l_orderkey = present 1, l_shipmode = present ''MAIL'', l_shipdate = null_slot 0,
      l_commitdate = present 8810, l_receiptdate = present 8820\<rparr>"

text \<open>
  The RVV programs of Query 1, Query 4 and Query 6 take \<open>chunk(0)\<close> of a column and index it
  with every row number of the table (\<open>table->num_rows()\<close>). The columns of a table are
  chunked alike, so the table is the list of its chunks of rows. \<open>chunk0\<close> is \<open>None\<close> for a
  column without chunks and \<open>Value\<close> is \<open>None\<close> for an index outside the array: both are
  reads outside a buffer in the program.
\<close>

definition chunk0 :: "'a list list \<Rightarrow> 'a list option" where
  "chunk0 chunks = (case chunks of [] \<Rightarrow> None | c # _ \<Rightarrow> Some c)"

definition num_rows :: "'a list list \<Rightarrow> nat" where
  "num_rows chunks = length (concat chunks)"

definition Value :: "'a list \<Rightarrow> nat \<Rightarrow> 'a option" where
  "Value array i = (if i < length array then Some (array ! i) else None)"

definition for_rows :: "nat \<Rightarrow> (nat \<Rightarrow> 'b option) \<Rightarrow> 'b list option" where
  "for_rows n f = those (map f [0..<n])"

text \<open>
  Query 4, RVV program: the line item side of \<open>RunQuery4\<close>, up to the set of the keys of
  late orders.
\<close>

fun collect_late_keys :: "int64 list \<Rightarrow> uint8 list \<Rightarrow> nat list \<Rightarrow> int64 set \<Rightarrow> int64 set option" where
  "collect_late_keys lineitem_keys late_delivery_mask [] late_order_keys = Some late_order_keys"
| "collect_late_keys lineitem_keys late_delivery_mask (i # is) late_order_keys =
     (let is_late = mask_bit late_delivery_mask i in
      if is_late then
        (case Value lineitem_keys i of
           None \<Rightarrow> None
         | Some k \<Rightarrow> collect_late_keys lineitem_keys late_delivery_mask is (insert k late_order_keys))
      else collect_late_keys lineitem_keys late_delivery_mask is late_order_keys)"

definition rvv_q4_late_order_keys :: "nat \<Rightarrow> q4_lineitem list list \<Rightarrow> int64 set option" where
  "rvv_q4_late_order_keys hw lineitem_table =
     (case chunk0 lineitem_table of
        None \<Rightarrow> None
      | Some c0 \<Rightarrow>
          let commit_array = map (\<lambda>r. raw (q4_commitdate r)) c0;
              receipt_array = map (\<lambda>r. raw (q4_receiptdate r)) c0;
              num_lineitem_rows = num_rows lineitem_table;
              num_bytes = (num_lineitem_rows + 7) div 8;
              late_delivery_mask = replicate num_bytes 0
          in (case check_late_delivery_rvv hw commit_array receipt_array late_delivery_mask
                     num_lineitem_rows of
                None \<Rightarrow> None
              | Some late_delivery_mask' \<Rightarrow>
                  let lineitem_keys = map (\<lambda>r. raw (q4_orderkey r)) c0
                  in collect_late_keys lineitem_keys late_delivery_mask'
                       [0..<num_lineitem_rows] {}))"

text \<open>
  Modelled from the spec: \<open>arrow::Decimal128::ToDouble(scale)\<close> is a routine of the Arrow
  library and not part of the repository. The specification gives the real value of a
  decimal as \<open>twos_complement(high, low) / 10^scale\<close>; the routine is taken to return the
  \<open>double\<close> nearest to it. The programs assign the result to a \<open>float\<close>.
\<close>

definition Decimal128_ToDouble :: "decimal128_raw \<Rightarrow> int32 \<Rightarrow> double" where
  "Decimal128_ToDouble bytes scale =
     fp_round 53 (of_int (decimal128_value bytes) / 10 powi sint scale)"

definition rvv_decode :: "decimal128_raw \<Rightarrow> int32 \<Rightarrow> float32" where
  "rvv_decode val scale_factor = double_to_float (Decimal128_ToDouble val scale_factor)"

text \<open>
  The decimal columns of the filtered line item table in the RVV programs of Query 1 and
  Query 6, with the scale each column declares. \<open>rl_extendedprice_type\<close> is \<open>None\<close> when
  the price column is not of type \<open>DECIMAL128\<close>; Query 1 tests for it and otherwise leaves
  its arrays zeroed, Query 6 casts without a test. The loops below fill \<open>price_data\<close>,
  \<open>discount_data\<close> (and \<open>tax_data\<close>, \<open>quantity_data\<close>); a list of tuples stands for the
  parallel arrays.
\<close>

record rvv_lineitem =
  rl_extendedprice :: decimal128_raw
  rl_discount :: decimal128_raw
  rl_tax :: decimal128_raw
  rl_quantity :: decimal128_raw

record rvv_lineitem_table =
  rl_extendedprice_type :: "int32 option"
  rl_discount_scale :: int32
  rl_tax_scale :: int32
  rl_quantity_scale :: int32
  rl_chunks :: "rvv_lineitem list list"

definition RunQuery6_decode :: "rvv_lineitem_table \<Rightarrow> (float32 \<times> float32) list option" where
  "RunQuery6_decode filtered_table =
     (let num_rows = num_rows (rl_chunks filtered_table) in
      case chunk0 (rl_chunks filtered_table) of
        None \<Rightarrow> None
      | Some c0 \<Rightarrow>
          (case rl_extendedprice_type filtered_table of
             None \<Rightarrow> None
           | Some scale_factor \<Rightarrow>
               for_rows num_rows (\<lambda>i.
                 case Value c0 i of
                   None \<Rightarrow> None
                 | Some r \<Rightarrow> Some (rvv_decode (rl_extendedprice r) scale_factor,
                                   rvv_decode (rl_discount r) scale_factor))))"

definition RunQuery1RVV_decode ::
  "rvv_lineitem_table \<Rightarrow> (float32 \<times> float32 \<times> float32 \<times> float32) list option" where
  "RunQuery1RVV_decode filtered_table =
     (let num_rows = num_rows (rl_chunks filtered_table) in
      case chunk0 (rl_chunks filtered_table) of
        None \<Rightarrow> None
      | Some c0 \<Rightarrow>
          (case rl_extendedprice_type filtered_table of
             None \<Rightarrow> Some (replicate num_rows (0, 0, 0, 0))
           | Some scale_factor \<Rightarrow>
               for_rows num_rows (\<lambda>i.
                 case Value c0 i of
                   None \<Rightarrow> None
                 | Some r \<Rightarrow> Some (rvv_decode (rl_extendedprice r) scale_factor,
                                   rvv_decode (rl_discount r) scale_factor,
                                   rvv_decode (rl_tax r) scale_factor,
                                   rvv_decode (rl_quantity r) scale_factor))))"

text \<open>
  The values of the four decimal columns of a row, each decoded with the scale its own
  column declares.
\<close>

definition true_values :: "int32 \<Rightarrow> int32 \<Rightarrow> int32 \<Rightarrow> int32 \<Rightarrow> rvv_lineitem
   \<Rightarrow> float32 \<times> float32 \<times> float32 \<times> float32" where
  "true_values price_scale discount_scale tax_scale quantity_scale r =
     (rvv_decode (rl_extendedprice r) price_scale, rvv_decode (rl_discount r) discount_scale,
      rvv_decode (rl_tax r) tax_scale, rvv_decode (rl_quantity r) quantity_scale)"

text \<open>Sample rows.\<close>

definition sample_lineitem :: q4_lineitem where
  "sample_lineitem = \<lparr>q4_orderkey = present 7, q4_commitdate = present 8800,
                       q4_receiptdate = present 8810\<rparr>"

definition sample_rvv_lineitem :: rvv_lineitem where
  "sample_rvv_lineitem = \<lparr>rl_extendedprice = decimal128_bytes 100000,
     rl_discount = decimal128_bytes 6, rl_tax = decimal128_bytes 2,
     rl_quantity = decimal128_bytes 1000\<rparr>"

section \<open>Query 9: profit by nation and year\<close>




















definition running_sum :: "double \<Rightarrow> double list \<Rightarrow> double" where
  "running_sum s xs = fold (\<lambda>x s. dadd s x) xs s"









section \<open>Query 1 (scalar program): aggregation\<close>

text \<open>
  \<open>struct GroupKey\<close> and \<open>struct AggregateValues\<close>. The groups are held in a
  \<open>std::map<GroupKey, AggregateValues>\<close>; \<open>operator<\<close> of the key compares the two strings
  lexicographically, so two keys are equivalent exactly when they are equal, and the map
  is a partial function on the keys. \<open>count_order\<close> is an \<open>int64_t\<close> that counts rows,
  which are fewer than \<open>2^63\<close>.
\<close>

record GroupKey =
  returnflag :: string
  linestatus :: string

record AggregateValues =
  sum_qty :: double
  sum_base_price :: double
  sum_disc_price :: double
  sum_charge :: double
  avg_qty :: double
  avg_price :: double
  avg_disc :: double
  sum_disc :: double
  count_order :: int

definition AggregateValues_init :: AggregateValues where
  "AggregateValues_init =
     \<lparr>sum_qty = 0, sum_base_price = 0, sum_disc_price = 0, sum_charge = 0, avg_qty = 0,
      avg_price = 0, avg_disc = 0, sum_disc = 0, count_order = 0\<rparr>"

text \<open>
  A row of \<open>lineitem\<close> as the loop reads it, and a chunk with the types of its four decimal
  columns. Only the ship date is tested for null; the other columns are read as they are.
\<close>

record q1_row =
  q1_shipdate :: "int32 slot"
  q1_returnflag :: "string slot"
  q1_linestatus :: "string slot"
  q1_quantity :: "decimal128_raw slot"
  q1_extendedprice :: "decimal128_raw slot"
  q1_discount :: "decimal128_raw slot"
  q1_tax :: "decimal128_raw slot"

record q1_chunk =
  q1_quantity_type :: "int32 option"
  q1_extendedprice_type :: "int32 option"
  q1_discount_type :: "int32 option"
  q1_tax_type :: "int32 option"
  q1_rows :: "q1_row list"

record q1_state =
  q1_groups :: "GroupKey \<rightharpoonup> AggregateValues"
  q1_rows_processed :: int
  q1_rows_accepted :: int

definition q1_init :: q1_state where
  "q1_init = \<lparr>q1_groups = Map.empty, q1_rows_processed = 0, q1_rows_accepted = 0\<rparr>"

text \<open>\<open>date_string_to_days("1998-09-02")\<close>, in days since 1970-01-01.\<close>

definition date_1998_09_02 :: int32 where "date_1998_09_02 = 10471"

text \<open>
  The body of the row loop: \<open>AggregateValues& agg = groups[key]\<close> inserts a group of zeros
  for a new key, and the six updates follow.
\<close>

definition q1_row_step ::
  "int32 \<Rightarrow> int32 \<Rightarrow> int32 \<Rightarrow> int32 \<Rightarrow> int32 \<Rightarrow> q1_state \<Rightarrow> q1_row \<Rightarrow> q1_state" where
  "q1_row_step quantity_scale price_scale discount_scale tax_scale cutoff_days st0 r =
     (let st = st0\<lparr>q1_rows_processed := q1_rows_processed st0 + 1\<rparr> in
      if IsNull (q1_shipdate r) then st
      else let shipdate_days = raw (q1_shipdate r) in
      if cutoff_days <s shipdate_days then st
      else let st' = st\<lparr>q1_rows_accepted := q1_rows_accepted st + 1\<rparr>;
               key = \<lparr>returnflag = raw (q1_returnflag r), linestatus = raw (q1_linestatus r)\<rparr>;
               quantity = decimal128_bytes_to_double (raw (q1_quantity r)) quantity_scale;
               extendedprice = decimal128_bytes_to_double (raw (q1_extendedprice r)) price_scale;
               discount = decimal128_bytes_to_double (raw (q1_discount r)) discount_scale;
               tax = decimal128_bytes_to_double (raw (q1_tax r)) tax_scale;
               disc_price' = disc_price extendedprice discount;
               charge = dmul disc_price' (dadd 1 tax);
               agg = (case q1_groups st' key of None \<Rightarrow> AggregateValues_init | Some a \<Rightarrow> a)
           in st'\<lparr>q1_groups := (q1_groups st')(key \<mapsto>
                  agg\<lparr>sum_qty := dadd (sum_qty agg) quantity,
                      sum_base_price := dadd (sum_base_price agg) extendedprice,
                      sum_disc_price := dadd (sum_disc_price agg) disc_price',
                      sum_charge := dadd (sum_charge agg) charge,
                      sum_disc := dadd (sum_disc agg) discount,
                      count_order := count_order agg + 1\<rparr>)\<rparr>)"

definition q1_chunk_step :: "q1_chunk \<Rightarrow> q1_state \<Rightarrow> q1_state" where
  "q1_chunk_step chunk st =
     (let quantity_scale = column_scale (q1_quantity_type chunk);
          price_scale = column_scale (q1_extendedprice_type chunk);
          discount_scale = column_scale (q1_discount_type chunk);
          tax_scale = column_scale (q1_tax_type chunk)
      in fold (\<lambda>r s. q1_row_step quantity_scale price_scale discount_scale tax_scale
                        date_1998_09_02 s r)
           (q1_rows chunk) st)"

text \<open>
  The loop over the groups that computes the averages once every row has been applied,
  and the whole computation. The division converts the count to \<open>double\<close>.
\<close>

definition int64_count_to_double :: "int \<Rightarrow> double" where
  "int64_count_to_double n = fp_round 53 (of_int n)"

definition finalize_group :: "AggregateValues \<Rightarrow> AggregateValues" where
  "finalize_group agg =
     (if 0 < count_order agg
      then agg\<lparr>avg_qty := ddiv (sum_qty agg) (int64_count_to_double (count_order agg)),
               avg_price := ddiv (sum_base_price agg) (int64_count_to_double (count_order agg)),
               avg_disc := ddiv (sum_disc agg) (int64_count_to_double (count_order agg))\<rparr>
      else agg)"

definition q1_main :: "q1_chunk list \<Rightarrow> (GroupKey \<rightharpoonup> AggregateValues)" where
  "q1_main chunks = (\<lambda>key. map_option finalize_group (q1_groups (fold q1_chunk_step chunks q1_init) key))"

text \<open>
  What one row adds to its group, \<open>None\<close> for a row that the loop skips, and the list of
  the additions of a table in the order of the rows.
\<close>

record contribution =
  c_key :: GroupKey
  c_qty :: double
  c_price :: double
  c_disc_price :: double
  c_charge :: double
  c_disc :: double

definition row_contribution ::
  "int32 \<Rightarrow> int32 \<Rightarrow> int32 \<Rightarrow> int32 \<Rightarrow> q1_row \<Rightarrow> contribution option" where
  "row_contribution quantity_scale price_scale discount_scale tax_scale r =
     (if IsNull (q1_shipdate r) \<or> date_1998_09_02 <s raw (q1_shipdate r) then None
      else let extendedprice = decimal128_bytes_to_double (raw (q1_extendedprice r)) price_scale;
               discount = decimal128_bytes_to_double (raw (q1_discount r)) discount_scale;
               tax = decimal128_bytes_to_double (raw (q1_tax r)) tax_scale
           in Some \<lparr>c_key = \<lparr>returnflag = raw (q1_returnflag r),
                              linestatus = raw (q1_linestatus r)\<rparr>,
                     c_qty = decimal128_bytes_to_double (raw (q1_quantity r)) quantity_scale,
                     c_price = extendedprice,
                     c_disc_price = disc_price extendedprice discount,
                     c_charge = dmul (disc_price extendedprice discount) (dadd 1 tax),
                     c_disc = discount\<rparr>)"

definition chunk_contributions :: "q1_chunk \<Rightarrow> contribution list" where
  "chunk_contributions chunk =
     List.map_filter (row_contribution (column_scale (q1_quantity_type chunk))
                        (column_scale (q1_extendedprice_type chunk))
                        (column_scale (q1_discount_type chunk))
                        (column_scale (q1_tax_type chunk)))
       (q1_rows chunk)"

definition q1_contributions :: "q1_chunk list \<Rightarrow> contribution list" where
  "q1_contributions chunks = concat (map chunk_contributions chunks)"

text \<open>The six updates of one addition.\<close>

definition apply_contribution ::
  "(GroupKey \<rightharpoonup> AggregateValues) \<Rightarrow> contribution \<Rightarrow> (GroupKey \<rightharpoonup> AggregateValues)" where
  "apply_contribution m c =
     (let agg = (case m (c_key c) of None \<Rightarrow> AggregateValues_init | Some a \<Rightarrow> a)
      in m(c_key c \<mapsto>
           agg\<lparr>sum_qty := dadd (sum_qty agg) (c_qty c),
               sum_base_price := dadd (sum_base_price agg) (c_price c),
               sum_disc_price := dadd (sum_disc_price agg) (c_disc_price c),
               sum_charge := dadd (sum_charge agg) (c_charge c),
               sum_disc := dadd (sum_disc agg) (c_disc c),
               count_order := count_order agg + 1\<rparr>))"

text \<open>
  A field of a group, 0 for a group that is not in the map; the values that a list of
  additions holds for one field of one group; and the bound on the difference of two sums
  of the same \<open>n\<close> values taken in two orders: \<open>2 * ((1 + 2^-53)^n - 1)\<close> times the sum
  of the magnitudes.
\<close>

definition group_value :: "(AggregateValues \<Rightarrow> 'v::zero) \<Rightarrow> (GroupKey \<rightharpoonup> AggregateValues) \<Rightarrow> GroupKey \<Rightarrow> 'v" where
  "group_value f m key = (case m key of None \<Rightarrow> 0 | Some a \<Rightarrow> f a)"

definition contributions_to :: "(contribution \<Rightarrow> double) \<Rightarrow> GroupKey \<Rightarrow> contribution list \<Rightarrow> double list" where
  "contributions_to g key cs = map g (filter (\<lambda>c. c_key c = key) cs)"

definition summation_tolerance :: "double list \<Rightarrow> real" where
  "summation_tolerance xs =
     2 * ((1 + 2 powi (- 53)) ^ length xs - 1) * sum_list (map abs xs)"

text \<open>A chunk split in two after \<open>n\<close> rows.\<close>

definition split_chunk :: "nat \<Rightarrow> q1_chunk \<Rightarrow> q1_chunk list" where
  "split_chunk n chunk =
     [chunk\<lparr>q1_rows := take n (q1_rows chunk)\<rparr>, chunk\<lparr>q1_rows := drop n (q1_rows chunk)\<rparr>]"

text \<open>Two line items of one group, in one chunk each.\<close>

definition q1_sample_row :: "int \<Rightarrow> q1_row" where
  "q1_sample_row quantity =
     \<lparr>q1_shipdate = present 10000, q1_returnflag = present ''A'', q1_linestatus = present ''F'',
      q1_quantity = present (decimal128_bytes quantity),
      q1_extendedprice = present (decimal128_bytes 100000),
      q1_discount = present (decimal128_bytes 6), q1_tax = present (decimal128_bytes 0)\<rparr>"

definition q1_sample_chunk :: "int \<Rightarrow> q1_chunk" where
  "q1_sample_chunk quantity =
     \<lparr>q1_quantity_type = Some 2, q1_extendedprice_type = Some 2, q1_discount_type = Some 2,
      q1_tax_type = Some 2, q1_rows = [q1_sample_row quantity]\<rparr>"

section \<open>Properties of rounding\<close>

lemma ilog2_bounds:
  "0 < x \<Longrightarrow> 2 powi ilog2 x \<le> x \<and> x < 2 powi (ilog2 x + 1)"
proof (induction x rule: ilog2.induct)
  case (1 x)
  show ?case
  proof (cases "x < 1")
    case True
    then have e: "ilog2 x = ilog2 (2 * x) - 1" using 1(3) by (subst ilog2.simps) simp
    have ih: "2 powi ilog2 (2 * x) \<le> 2 * x \<and> 2 * x < 2 powi (ilog2 (2 * x) + 1)"
      using 1(1) 1(3) True by simp
    have "(2::real) powi ilog2 (2 * x) = 2 * 2 powi (ilog2 (2 * x) - 1)"
      by (simp add: power_int_diff)
    moreover have "(2::real) powi (ilog2 (2 * x) + 1) = 2 * 2 powi ilog2 (2 * x)"
      by (simp add: power_int_add)
    ultimately show ?thesis using ih e by simp
  next
    case False
    show ?thesis
    proof (cases "2 \<le> x")
      case True
      then have e: "ilog2 x = ilog2 (x / 2) + 1" using False by (subst ilog2.simps) simp
      have ih: "2 powi ilog2 (x / 2) \<le> x / 2 \<and> x / 2 < 2 powi (ilog2 (x / 2) + 1)"
        using 1(2) 1(3) False True by simp
      have "(2::real) powi (ilog2 (x / 2) + 1) = 2 * 2 powi ilog2 (x / 2)"
        by (simp add: power_int_add)
      moreover have "(2::real) powi (ilog2 (x / 2) + 1 + 1) = 2 * 2 powi (ilog2 (x / 2) + 1)"
        by (simp add: power_int_add)
      ultimately show ?thesis using ih e by simp
    next
      case F2: False
      then have "ilog2 x = 0" using False 1(3) by (subst ilog2.simps) simp
      then show ?thesis using False F2 by simp
    qed
  qed
qed

lemma powi2_less_imp: "(2::real) powi a < 2 powi b \<Longrightarrow> a < b"
proof (rule ccontr)
  assume "2 powi a < (2::real) powi b" "\<not> a < b"
  then have "b \<le> a" by simp
  then have "(2::real) powi b \<le> 2 powi a" by (rule power_int_increasing) simp
  with \<open>2 powi a < (2::real) powi b\<close> show False by simp
qed

lemma ilog2_unique:
  assumes "2 powi e \<le> x" "x < 2 powi (e + 1)"
  shows "ilog2 x = e"
proof -
  have pos: "0 < x" using assms(1) by (smt (verit) zero_less_power_int zero_less_numeral)
  note b = ilog2_bounds[OF pos]
  have "(2::real) powi e < 2 powi (ilog2 x + 1)" using assms(1) b by linarith
  then have "e < ilog2 x + 1" by (rule powi2_less_imp)
  moreover have "(2::real) powi ilog2 x < 2 powi (e + 1)" using assms(2) b by linarith
  then have "ilog2 x < e + 1" by (rule powi2_less_imp)
  ultimately show ?thesis by linarith
qed

lemma ilog2_mono: "0 < x \<Longrightarrow> x \<le> y \<Longrightarrow> ilog2 x \<le> ilog2 y"
proof -
  assume a: "0 < x" "x \<le> y"
  then have "0 < y" by simp
  have "(2::real) powi ilog2 x < 2 powi (ilog2 y + 1)"
    using ilog2_bounds[OF a(1)] ilog2_bounds[OF \<open>0 < y\<close>] a(2) by linarith
  then have "ilog2 x < ilog2 y + 1" by (rule powi2_less_imp)
  then show ?thesis by simp
qed


lemma round_half_even_of_int [simp]: "round_half_even (of_int n) = n"
  by (simp add: round_half_even_def)

lemma round_half_even_error: "\<bar>of_int (round_half_even q) - q\<bar> \<le> 1 / 2"
  unfolding round_half_even_def Let_def by (auto; linarith)

lemma round_half_even_mono: "q \<le> r \<Longrightarrow> round_half_even q \<le> round_half_even r"
proof -
  assume le: "q \<le> r"
  have fl: "\<lfloor>q\<rfloor> \<le> \<lfloor>r\<rfloor>" using le by (rule floor_mono)
  show ?thesis
  proof (cases "\<lfloor>q\<rfloor> = \<lfloor>r\<rfloor>")
    case True
    then show ?thesis using le unfolding round_half_even_def Let_def by auto
  next
    case False
    then have "\<lfloor>q\<rfloor> + 1 \<le> \<lfloor>r\<rfloor>" using fl by simp
    moreover have "round_half_even q \<le> \<lfloor>q\<rfloor> + 1" unfolding round_half_even_def Let_def by auto
    moreover have "\<lfloor>r\<rfloor> \<le> round_half_even r" unfolding round_half_even_def Let_def by auto
    ultimately show ?thesis by linarith
  qed
qed


lemma fp_round_0 [simp]: "fp_round p 0 = 0"
  by (simp add: fp_round_def)

lemma fp_round_minus: "fp_round p (- x) = - fp_round p x"
  by (simp add: fp_round_def Let_def sgn_minus)

lemma fp_round_pos:
  "0 < x \<Longrightarrow> fp_round p x
     = of_int (round_half_even (x / 2 powi (ilog2 x - int p + 1))) * 2 powi (ilog2 x - int p + 1)"
  by (simp add: fp_round_def Let_def)

lemma fp_round_eval:
  assumes "2 powi e \<le> x" "x < 2 powi (e + 1)"
  shows "fp_round p x = of_int (round_half_even (x / 2 powi (e - int p + 1))) * 2 powi (e - int p + 1)"
proof -
  have pos: "0 < x" using assms(1) by (smt (verit) zero_less_power_int zero_less_numeral)
  show ?thesis using fp_round_pos[OF pos] ilog2_unique[OF assms] by simp
qed

lemma ulp_scale:
  assumes "0 < p"
  shows "(2::real) powi e = 2 ^ (p - 1) * 2 powi (e - int p + 1)"
proof -
  have "int (p - 1) + (e - int p + 1) = e" using assms by (simp add: of_nat_diff)
  then have "(2::real) powi e = 2 powi (int (p - 1) + (e - int p + 1))" by simp
  also have "\<dots> = 2 powi int (p - 1) * 2 powi (e - int p + 1)"
    by (rule power_int_add) simp
  finally show ?thesis by (simp only: power_int_of_nat)
qed

lemma ulp_scale':
  "(2::real) powi (e + 1) = 2 ^ p * 2 powi (e - int p + 1)"
  using power_int_add[of "2::real" "int p" "e - int p + 1"]
  by (simp add: algebra_simps)

lemma ulp_pos: "0 < (2::real) powi k"
  by simp

lemma fp_round_pos_bounds:
  assumes "0 < p" "0 < x"
  shows "2 powi ilog2 x \<le> fp_round p x \<and> fp_round p x \<le> 2 powi (ilog2 x + 1)"
proof -
  define e where "e = ilog2 x"
  define u :: real where "u = 2 powi (e - int p + 1)"
  have upos: "0 < u" by (simp add: u_def)
  have b: "2 powi e \<le> x" "x < 2 powi (e + 1)" using ilog2_bounds[OF assms(2)] by (simp_all add: e_def)
  have E1: "2 powi e = 2 ^ (p - 1) * u" unfolding u_def by (rule ulp_scale[OF assms(1)])
  have E2: "2 powi (e + 1) = 2 ^ p * u" unfolding u_def by (rule ulp_scale')
  have "2 ^ (p - 1) * u \<le> x" using b(1) E1 by simp
  then have "2 ^ (p - 1) \<le> x / u" using upos by (simp add: pos_le_divide_eq)
  then have lo: "of_int (2 ^ (p - 1)) \<le> x / u" by simp
  have "x \<le> 2 ^ p * u" using b(2) E2 by simp
  then have "x / u \<le> 2 ^ p" using upos by (simp add: pos_divide_le_eq)
  then have hi: "x / u \<le> of_int (2 ^ p)" by simp
  have "round_half_even (of_int (2 ^ (p - 1))) \<le> round_half_even (x / u)"
    using lo by (rule round_half_even_mono)
  then have "(2::int) ^ (p - 1) \<le> round_half_even (x / u)"
    by (simp only: round_half_even_of_int)
  then have "real_of_int (2 ^ (p - 1)) \<le> of_int (round_half_even (x / u))"
    by (simp only: of_int_le_iff)
  then have l2: "(2::real) ^ (p - 1) \<le> of_int (round_half_even (x / u))"
    by simp
  have "round_half_even (x / u) \<le> round_half_even (of_int (2 ^ p))"
    using hi by (rule round_half_even_mono)
  then have "round_half_even (x / u) \<le> (2::int) ^ p"
    by (simp only: round_half_even_of_int)
  then have "real_of_int (round_half_even (x / u)) \<le> of_int (2 ^ p)"
    by (simp only: of_int_le_iff)
  then have h2: "of_int (round_half_even (x / u)) \<le> (2::real) ^ p"
    by simp
  have r: "fp_round p x = of_int (round_half_even (x / u)) * u"
    using fp_round_pos[OF assms(2)] by (simp add: u_def e_def)
  have "2 ^ (p - 1) * u \<le> of_int (round_half_even (x / u)) * u"
    using l2 upos by (simp add: mult_right_mono)
  then have A: "2 powi e \<le> fp_round p x" by (simp only: r E1)
  have "of_int (round_half_even (x / u)) * u \<le> 2 ^ p * u"
    using h2 upos by (simp add: mult_right_mono)
  then have B: "fp_round p x \<le> 2 powi (e + 1)" by (simp only: r E2)
  show ?thesis using A B by (simp add: e_def)
qed

lemma fp_round_pos_nonneg: "0 < p \<Longrightarrow> 0 < x \<Longrightarrow> 0 < fp_round p x"
  using fp_round_pos_bounds[of p x] ulp_pos[of "ilog2 x"] by linarith

lemma fp_round_mono_pos:
  assumes "0 < p" "0 < x" "x \<le> y"
  shows "fp_round p x \<le> fp_round p y"
proof -
  have ypos: "0 < y" using assms by simp
  have le: "ilog2 x \<le> ilog2 y" using assms by (simp add: ilog2_mono)
  show ?thesis
  proof (cases "ilog2 x = ilog2 y")
    case True
    define u :: real where "u = 2 powi (ilog2 y - int p + 1)"
    have upos: "0 < u" by (simp add: u_def)
    have "x / u \<le> y / u" using assms(3) upos by (simp add: divide_right_mono)
    then have "round_half_even (x / u) \<le> round_half_even (y / u)" by (rule round_half_even_mono)
    then have "of_int (round_half_even (x / u)) * u \<le> of_int (round_half_even (y / u)) * u"
      using upos by (simp add: mult_right_mono)
    then show ?thesis using fp_round_pos[OF assms(2)] fp_round_pos[OF ypos] True by (simp add: u_def)
  next
    case False
    then have "ilog2 x + 1 \<le> ilog2 y" using le by simp
    then have "(2::real) powi (ilog2 x + 1) \<le> 2 powi ilog2 y" by (rule power_int_increasing) simp
    then show ?thesis
      using fp_round_pos_bounds[OF assms(1,2)] fp_round_pos_bounds[OF assms(1) ypos] by linarith
  qed
qed

lemma fp_round_mono:
  assumes "0 < p" "x \<le> y"
  shows "fp_round p x \<le> fp_round p y"
proof -
  consider "0 < x" | "x \<le> 0" "0 \<le> y" | "y < 0" using assms(2) by linarith
  then show ?thesis
  proof cases
    case 1
    then show ?thesis using assms by (simp add: fp_round_mono_pos)
  next
    case 2
    have a: "fp_round p x \<le> 0"
    proof (cases "x = 0")
      case True then show ?thesis by simp
    next
      case False
      then have "0 < - x" using 2 by simp
      then have "0 < fp_round p (- x)" using assms(1) by (simp add: fp_round_pos_nonneg)
      then show ?thesis by (simp add: fp_round_minus)
    qed
    have b: "0 \<le> fp_round p y"
    proof (cases "y = 0")
      case True then show ?thesis by simp
    next
      case False
      then have "0 < y" using 2 by simp
      then show ?thesis using fp_round_pos_nonneg[OF assms(1), of y] by simp
    qed
    show ?thesis using a b by linarith
  next
    case 3
    then have "0 < - y" "- y \<le> - x" using assms(2) by simp_all
    then have "fp_round p (- y) \<le> fp_round p (- x)" using assms(1) by (simp add: fp_round_mono_pos)
    then show ?thesis by (simp add: fp_round_minus)
  qed
qed

text \<open>
  Representable values: an integer significand of at most \<open>p\<close> bits times a power of two
  is returned unchanged.
\<close>

lemma fp_round_representable_pos:
  assumes "0 < p" "0 < m" "m < 2 ^ p"
  shows "fp_round p (of_int m * 2 powi k) = of_int m * 2 powi k"
proof -
  define x :: real where "x = of_int m * 2 powi k"
  have xpos: "0 < x" using assms(2) by (simp add: x_def)
  define e where "e = ilog2 x"
  define u :: real where "u = 2 powi (e - int p + 1)"
  have upos: "0 < u" by (simp add: u_def)
  have b: "2 powi e \<le> x" "x < 2 powi (e + 1)" using ilog2_bounds[OF xpos] by (simp_all add: e_def)
  \<comment> \<open>the unit is at most the power of two of the value\<close>
  have "real_of_int m < of_int (2 ^ p)" using assms(3) by (simp only: of_int_less_iff)
  then have "x < 2 ^ p * 2 powi k" by (simp add: x_def)
  then have "x < 2 powi (int p + k)" by (simp add: power_int_add)
  then have "(2::real) powi e < 2 powi (int p + k)" using b(1) by linarith
  then have "e < int p + k" by (rule powi2_less_imp)
  then have d: "0 \<le> k - (e - int p + 1)" by simp
  have "x / u = of_int m * 2 powi (k - (e - int p + 1))"
    by (simp add: x_def u_def power_int_diff)
  also have "\<dots> = of_int m * 2 ^ nat (k - (e - int p + 1))"
    using d by (simp add: power_int_def)
  also have "\<dots> = of_int (m * 2 ^ nat (k - (e - int p + 1)))" by simp
  finally have "round_half_even (x / u) = m * 2 ^ nat (k - (e - int p + 1))"
    by (simp only: round_half_even_of_int)
  then have "of_int (round_half_even (x / u)) * u = x / u * u"
    using \<open>x / u = of_int m * 2 powi (k - (e - int p + 1))\<close> d by (simp add: power_int_def)
  also have "\<dots> = x" using upos by simp
  finally show ?thesis using fp_round_pos[OF xpos] by (simp add: u_def e_def x_def)
qed

lemma fp_round_representable:
  assumes "0 < p" "\<bar>m\<bar> < 2 ^ p"
  shows "fp_round p (of_int m * 2 powi k) = of_int m * 2 powi k"
proof -
  consider "m = 0" | "0 < m" | "m < 0" by linarith
  then show ?thesis
  proof cases
    case 1 then show ?thesis by simp
  next
    case 2 then show ?thesis using assms by (simp add: fp_round_representable_pos)
  next
    case 3
    then have "fp_round p (of_int (- m) * 2 powi k) = of_int (- m) * 2 powi k"
      using assms by (intro fp_round_representable_pos) simp_all
    then show ?thesis using fp_round_minus[of p "of_int m * 2 powi k"] by simp
  qed
qed

lemma fp_round_of_int: "0 < p \<Longrightarrow> \<bar>m\<bar> < 2 ^ p \<Longrightarrow> fp_round p (of_int m) = of_int m"
  using fp_round_representable[of p m 0] by simp


section \<open>Properties of the decimal decoder\<close>

lemma le_bytes_numeral:
  "le_bytes (numeral k) v = word_of_int v # le_bytes (pred_numeral k) (v div 256)"
  by (simp add: numeral_eq_Suc)

lemma bytes_of_minus_100: "decimal128_bytes (-100) = [0x9C, 0xFF, 0xFF, 0xFF, 0xFF, 0xFF, 0xFF, 0xFF, 0xFF, 0xFF, 0xFF, 0xFF, 0xFF, 0xFF, 0xFF, 0xFF]"
  by (simp add: decimal128_bytes_def le_bytes_numeral)

lemma low_of_minus_100: "memcpy_int64 (decimal128_bytes (-100)) 0 = 0xFFFFFFFFFFFFFF9C"
  by (simp add: bytes_of_minus_100 memcpy_int64_def)

lemma high_of_minus_100: "memcpy_int64 (decimal128_bytes (-100)) 8 = -1"
  by (simp add: bytes_of_minus_100 memcpy_int64_def)

lemma uint64_to_double_near_2_64: "uint64_to_double 0xFFFFFFFFFFFFFF9C = 2 ^ 64"
  using fp_round_eval[of "63" "2 ^ 64 - 100" 53] by (simp add: uint64_to_double_def round_half_even_def Let_def)

lemma int64_to_double_minus_1: "int64_to_double (-1) = -1"
  using fp_round_of_int[of 53 "-1"] by (simp add: int64_to_double_def)

lemma dmul_minus_1_pow_2_64: "dmul (-1) pow_2_64 = - (2 ^ 64)"
  using fp_round_representable[of 53 "-1" 64] by (simp add: dmul_def pow_2_64_def)

lemma value_of_minus_100: "decimal128_value (decimal128_bytes (-100)) = -100"
  by (simp add: decimal128_value_def bytes_of_minus_100)

text \<open>
  Claim C1. The sixteen bytes of the integer \<open>-100\<close> with scale 2 are the decimal \<open>-1.00\<close>.
  \<open>decimal128_bytes_to_double\<close> splits them into \<open>high = -1\<close> and \<open>low = 2^64 - 100\<close>. The
  conversion of \<open>low\<close> to \<open>double\<close> rounds to 53 bits, which gives \<open>2^64\<close>; the sum with
  \<open>-1 * 2^64\<close> is then \<open>0\<close>, and the function returns \<open>0.0\<close> where the claim asks for
  \<open>-1.0\<close>.
\<close>

theorem decode_minus_100:
  "decimal128_value (decimal128_bytes (-100)) = -100
   \<and> decimal128_bytes_to_double (decimal128_bytes (-100)) 2 = 0"
  by (simp add: value_of_minus_100 decimal128_bytes_to_double_def low_of_minus_100
      high_of_minus_100 uint64_to_double_near_2_64 int64_to_double_minus_1
      dmul_minus_1_pow_2_64 dadd_def ddiv_def)


section \<open>Properties of Query 6\<close>

lemma pow_10_2: "pow_10 2 = 100"
  using fp_round_of_int[of 53 100] by (simp add: pow_10_def)

lemma decode_nonneg_small:
  assumes "memcpy_int64 bs 0 = word_of_int v" "memcpy_int64 bs 8 = 0" "0 \<le> v" "v < 2 ^ 53"
  shows "decimal128_bytes_to_double bs 2 = fp_round 53 (of_int v / 100)"
proof -
  have "v < 2 ^ 64" using assms(4) by simp
  then have "uint (word_of_int v :: 64 word) = v"
    using assms(3) by (simp add: uint_word_of_int take_bit_int_eq_self)
  moreover have "fp_round 53 (of_int v) = of_int v"
    using assms(3,4) by (intro fp_round_of_int) simp_all
  ultimately have "uint64_to_double (word_of_int v) = of_int v"
    by (simp add: uint64_to_double_def)
  then show ?thesis
    using \<open>fp_round 53 (of_int v) = of_int v\<close>
    by (simp add: decimal128_bytes_to_double_def assms(1,2) int64_to_double_def dmul_def
        dadd_def ddiv_def pow_10_2)
qed

lemma decode_6: "decimal128_bytes_to_double (decimal128_bytes 6) 2 = 1080863910568919 / 18014398509481984"
proof -
  have "decimal128_bytes_to_double (decimal128_bytes 6) 2 = fp_round 53 (of_int 6 / 100)"
    by (rule decode_nonneg_small)
       (simp_all add: decimal128_bytes_def le_bytes_numeral memcpy_int64_def)
  also have "\<dots> = 1080863910568919 / 18014398509481984"
    using fp_round_eval[of "-5" "6/100" 53] by (simp add: round_half_even_def Let_def)
  finally show ?thesis .
qed

lemma decode_1000: "decimal128_bytes_to_double (decimal128_bytes 1000) 2 = 10"
proof -
  have "decimal128_bytes_to_double (decimal128_bytes 1000) 2 = fp_round 53 (of_int 1000 / 100)"
    by (rule decode_nonneg_small)
       (simp_all add: decimal128_bytes_def le_bytes_numeral memcpy_int64_def)
  also have "\<dots> = 10"
    using fp_round_of_int[of 53 10] by simp
  finally show ?thesis .
qed

lemma decode_100000: "decimal128_bytes_to_double (decimal128_bytes 100000) 2 = 1000"
proof -
  have "decimal128_bytes_to_double (decimal128_bytes 100000) 2
        = fp_round 53 (of_int 100000 / 100)"
    by (rule decode_nonneg_small)
       (simp_all add: decimal128_bytes_def le_bytes_numeral memcpy_int64_def)
  also have "\<dots> = 1000"
    using fp_round_of_int[of 53 1000] by simp
  finally show ?thesis .
qed

lemma min_discount_val: "min_discount = 3602879701896397 / 72057594037927936"
  using fp_round_eval[of "-5" "5/100" 53]
  by (simp add: min_discount_def double_literal_def round_half_even_def Let_def)

lemma max_discount_val: "max_discount = 1261007895663739 / 18014398509481984"
  using fp_round_eval[of "-4" "7/100" 53]
  by (simp add: max_discount_def double_literal_def round_half_even_def Let_def)

lemma max_quantity_val: "max_quantity = 24"
  using fp_round_of_int[of 53 24] by (simp add: max_quantity_def double_literal_def)

lemma revenue_val: "dmul 1000 (1080863910568919 / 18014398509481984) = 60"
  using fp_round_eval[of 5 "1000 * (1080863910568919 / 18014398509481984)" 53]
  by (simp add: dmul_def round_half_even_def Let_def)

lemma dadd_0_60: "dadd 0 60 = 60"
  using fp_round_of_int[of 53 60] by (simp add: dadd_def)

text \<open>
  Claim C5. On the relation of scenario A, Query 6 qualifies the one row and ends with the
  revenue \<open>60\<close>: the decoded discount is the \<open>double\<close> nearest to 0.06, it lies between the
  bounds 0.05 and 0.07, the quantity 10 is below 24, and the product of the price 1000 and
  the discount rounds to exactly 60.
\<close>

theorem scenarioA_result:
  "q6_main scenarioA = \<lparr>total_revenue = 60, q6_rows_processed = 1, q6_rows_qualified = 1\<rparr>"
  by (simp add: q6_main_def scenarioA_def q6_chunk_step_def q6_row_step_def q6_init_def
      column_scale_def IsNull_def present_def decode_6 decode_1000 decode_100000
      min_discount_val max_discount_val max_quantity_val revenue_val dadd_0_60
      date_1994_01_01_def date_1995_01_01_def word_sless_alt word_sle_eq Let_def)


section \<open>Properties of the batch kernels\<close>

lemma vsetvl_pos: "0 < avl \<Longrightarrow> 0 < vsetvl_e32m8 hw avl"
  by (simp add: vsetvl_e32m8_def VLMAX_e32m8_def)

lemma vsetvl_le: "vsetvl_e32m8 hw avl \<le> avl"
  by (simp add: vsetvl_e32m8_def)

lemma strip_mine_invariant:
  assumes step: "\<And>i vl s. i < n \<Longrightarrow> 0 < vl \<Longrightarrow> i + vl \<le> n \<Longrightarrow> P i s
                   \<Longrightarrow> \<exists>s'. body i vl s = Some s' \<and> P (i + vl) s'"
  shows "i \<le> n \<Longrightarrow> P i s \<Longrightarrow> \<exists>s'. strip_mine hw body n i s = Some s' \<and> P n s'"
proof (induction "n - i" arbitrary: i s rule: less_induct)
  case less
  show ?case
  proof (cases "i < n")
    case True
    define vl where "vl = vsetvl_e32m8 hw (n - i)"
    have vl: "0 < vl" "i + vl \<le> n"
      using True vsetvl_pos[of "n - i" hw] vsetvl_le[of hw "n - i"] by (simp_all add: vl_def)
    obtain s' where s': "body i vl s = Some s'" "P (i + vl) s'"
      using step[OF True vl less.prems(2)] by blast
    have "n - (i + vl) < n - i" using True vl by simp
    then have "\<exists>s''. strip_mine hw body n (i + vl) s' = Some s'' \<and> P n s''"
      using less.hyps[of "i + vl" s'] s' vl by simp
    then show ?thesis
      using True s' by (subst strip_mine.simps) (simp add: vl_def)
  next
    case False
    then have "i = n" using less.prems(1) by simp
    then show ?thesis using less.prems(2) by (subst strip_mine.simps) simp
  qed
qed


lemma map2_replicate_left:
  "length ys = n \<Longrightarrow> map2 f (replicate n a) ys = map (f a) ys"
  by (induction ys arbitrary: n) auto

lemma take_add_zip:
  "i + vl \<le> length xs \<Longrightarrow> i + vl \<le> length ys \<Longrightarrow>
   zip (take (i + vl) xs) (take (i + vl) ys)
   = zip (take i xs) (take i ys) @ zip (take vl (drop i xs)) (take vl (drop i ys))"
  by (simp add: take_add)

lemma compute_disc_price_step:
  assumes "i + vl \<le> n" "n \<le> length extendedprice" "n \<le> length discount" "n \<le> length result0"
    and P: "result = map2 disc_price_f32 (take i extendedprice) (take i discount) @ drop i result0"
  shows "compute_disc_price_body extendedprice discount i vl result
         = Some (map2 disc_price_f32 (take (i + vl) extendedprice) (take (i + vl) discount)
                 @ drop (i + vl) result0)"
proof -
  have len: "length (map2 disc_price_f32 (take i extendedprice) (take i discount)) = i"
    using assms(1-3) by simp
  have lr: "length result = length result0" using assms(1-4) by (simp add: P)
  have v: "map2 fmul (take vl (drop i extendedprice))
             (map2 fsub (replicate vl (Finite 1)) (take vl (drop i discount)))
           = map2 disc_price_f32 (take vl (drop i extendedprice)) (take vl (drop i discount))"
  proof -
    have "length (take vl (drop i discount)) = vl" using assms(1-3) by simp
    then have "map2 fsub (replicate vl (Finite 1)) (take vl (drop i discount))
               = map (fsub (Finite 1)) (take vl (drop i discount))"
      by (rule map2_replicate_left)
    then show ?thesis
      by (simp add: disc_price_f32_def zip_map2 split_def)
  qed
  have t: "take i result = map2 disc_price_f32 (take i extendedprice) (take i discount)"
    using len by (simp add: P)
  have d: "drop (i + vl) result = drop (i + vl) result0"
    using len by (simp add: P drop_append add.commute)
  have lv: "length (map2 disc_price_f32 (take vl (drop i extendedprice)) (take vl (drop i discount))) = vl"
    using assms(1-3) by simp
  show ?thesis
    using assms(1-4) lr
    by (simp add: compute_disc_price_body_def vle32_def vse32_def Let_def v lv t d
        take_add_zip[of i vl extendedprice discount])
qed

lemma compute_disc_price_rvv_result:
  assumes "n \<le> length extendedprice" "n \<le> length discount" "n \<le> length result"
  shows "compute_disc_price_rvv hw extendedprice discount result n
         = Some (map2 disc_price_f32 (take n extendedprice) (take n discount) @ drop n result)"
proof -
  define P where "P = (\<lambda>i res. res = map2 disc_price_f32 (take i extendedprice) (take i discount)
                                  @ drop i result)"
  have "\<exists>s'. strip_mine hw (compute_disc_price_body extendedprice discount) n 0 result = Some s'
             \<and> P n s'"
  proof (rule strip_mine_invariant)
    show "0 \<le> n" by simp
    show "P 0 result" by (simp add: P_def)
  next
    fix i vl s
    assume "i < n" "0 < vl" "i + vl \<le> n" "P i s"
    then show "\<exists>s'. compute_disc_price_body extendedprice discount i vl s = Some s' \<and> P (i + vl) s'"
      using compute_disc_price_step[OF _ assms, of i vl s] by (simp add: P_def)
  qed
  then show ?thesis by (auto simp: compute_disc_price_rvv_def P_def)
qed


lemma bit_or_single: "bit (w OR 2 ^ b) m \<longleftrightarrow> bit w m \<or> (m = b \<and> b < 8)"
  for w :: uint8
  by (auto simp: bit_or_iff bit_exp_iff possible_bit_word)

lemma set_mask_bit_spec:
  assumes "idx div 8 < length results"
  shows "\<exists>res. set_mask_bit results idx = Some res \<and> length res = length results
         \<and> (\<forall>k. mask_bit res k = (mask_bit results k \<or> k = idx))"
proof -
  define res where "res = results[idx div 8 := results ! (idx div 8) OR push_bit (idx mod 8) 1]"
  have "mask_bit res k = (mask_bit results k \<or> k = idx)" for k
  proof (cases "k div 8 = idx div 8")
    case True
    have "k = idx \<longleftrightarrow> k mod 8 = idx mod 8"
      using True by (metis div_mult_mod_eq)
    then show ?thesis
      using True assms by (simp add: mask_bit_def res_def bit_or_single)
  next
    case False
    then have "k \<noteq> idx" by auto
    then show ?thesis using False by (simp add: mask_bit_def res_def)
  qed
  then show ?thesis using assms by (simp add: set_mask_bit_def Let_def res_def)
qed

lemma store_mask_bits_spec:
  assumes "\<And>j. j \<in> set js \<Longrightarrow> cond (i + j) = Some (c (i + j))"
    and "\<And>j. j \<in> set js \<Longrightarrow> (i + j) div 8 < length results"
  shows "\<exists>res. store_mask_bits cond i js results = Some res \<and> length res = length results
         \<and> (\<forall>k. mask_bit res k = (mask_bit results k \<or> (\<exists>j\<in>set js. k = i + j \<and> c k)))"
  using assms
proof (induction js arbitrary: results)
  case Nil
  then show ?case by simp
next
  case (Cons j js)
  have cj: "cond (i + j) = Some (c (i + j))" using Cons.prems(1) by simp
  show ?case
  proof (cases "c (i + j)")
    case True
    obtain r1 where r1: "set_mask_bit results (i + j) = Some r1" "length r1 = length results"
      "\<forall>k. mask_bit r1 k = (mask_bit results k \<or> k = i + j)"
      using set_mask_bit_spec[of "i + j" results] Cons.prems(2) by auto
    obtain res where res: "store_mask_bits cond i js r1 = Some res" "length res = length r1"
      "\<forall>k. mask_bit res k = (mask_bit r1 k \<or> (\<exists>j\<in>set js. k = i + j \<and> c k))"
      using Cons.IH[of r1] Cons.prems r1(2) by auto
    show ?thesis using cj True r1 res by auto
  next
    case False
    obtain res where res: "store_mask_bits cond i js results = Some res"
      "length res = length results"
      "\<forall>k. mask_bit res k = (mask_bit results k \<or> (\<exists>j\<in>set js. k = i + j \<and> c k))"
      using Cons.IH[of results] Cons.prems by auto
    show ?thesis using cj False res by auto
  qed
qed

lemma check_late_delivery_rvv_spec:
  assumes "len \<le> length commitdates" "len \<le> length receiptdates"
    and "(len + 7) div 8 \<le> length results"
  shows "\<exists>res. check_late_delivery_rvv hw commitdates receiptdates results len = Some res
           \<and> length res = length results
           \<and> (\<forall>k. mask_bit res k
                  = (mask_bit results k \<or> (k < len \<and> commitdates ! k <s receiptdates ! k)))"
proof -
  define c where "c = (\<lambda>k. commitdates ! k <s receiptdates ! k)"
  define P where "P = (\<lambda>i res. length res = length results
                     \<and> (\<forall>k. mask_bit res k = (mask_bit results k \<or> (k < i \<and> c k))))"
  have "\<exists>s'. strip_mine hw (check_late_delivery_body commitdates receiptdates) len 0 results = Some s'
             \<and> P len s'"
  proof (rule strip_mine_invariant)
    show "0 \<le> len" by simp
    show "P 0 results" by (simp add: P_def)
  next
    fix i vl s
    assume a: "i < len" "0 < vl" "i + vl \<le> len" "P i s"
    have "\<exists>res. store_mask_bits (late_at commitdates receiptdates) i [0..<vl] s = Some res
            \<and> length res = length s
            \<and> (\<forall>k. mask_bit res k = (mask_bit s k \<or> (\<exists>j\<in>set [0..<vl]. k = i + j \<and> c k)))"
    proof (rule store_mask_bits_spec)
      fix j assume "j \<in> set [0..<vl]"
      then have "i + j < len" using a(3) by simp
      then show "late_at commitdates receiptdates (i + j) = Some (c (i + j))"
        using assms(1,2) by (simp add: late_at_def c_def)
      show "(i + j) div 8 < length s"
        using \<open>i + j < len\<close> assms(3) a(4) by (simp add: P_def)
    qed
    then obtain res where res: "store_mask_bits (late_at commitdates receiptdates) i [0..<vl] s = Some res"
      "length res = length s"
      "\<forall>k. mask_bit res k = (mask_bit s k \<or> (\<exists>j\<in>set [0..<vl]. k = i + j \<and> c k))"
      by blast
    have "(\<exists>j\<in>set [0..<vl]. k = i + j \<and> c k) = (i \<le> k \<and> k < i + vl \<and> c k)" for k
      by (auto intro: bexI[of _ "k - i"])
    then have "P (i + vl) res" using res a(4) by (auto simp: P_def)
    moreover have "check_late_delivery_body commitdates receiptdates i vl s = Some res"
      using a(3) assms(1,2) res(1) by (simp add: check_late_delivery_body_def vle32_def)
    ultimately show "\<exists>s'. check_late_delivery_body commitdates receiptdates i vl s = Some s'
                          \<and> P (i + vl) s'" by blast
  qed
  then show ?thesis by (auto simp: check_late_delivery_rvv_def P_def c_def)
qed


lemma fp_round_abs_error_pos:
  assumes "0 < p" "0 < x"
  shows "\<bar>fp_round p x - x\<bar> \<le> 2 powi (- int p) * x"
proof -
  define e where "e = ilog2 x"
  define u :: real where "u = 2 powi (e - int p + 1)"
  have upos: "0 < u" by (simp add: u_def)
  have b: "2 powi e \<le> x" using ilog2_bounds[OF assms(2)] by (simp add: e_def)
  have r: "fp_round p x = of_int (round_half_even (x / u)) * u"
    using fp_round_pos[OF assms(2)] by (simp add: u_def e_def)
  have "fp_round p x - x = (of_int (round_half_even (x / u)) - x / u) * u"
    using upos by (simp add: r algebra_simps)
  then have "\<bar>fp_round p x - x\<bar> = \<bar>of_int (round_half_even (x / u)) - x / u\<bar> * u"
    using upos by (simp add: abs_mult)
  also have "\<dots> \<le> 1 / 2 * u"
    using round_half_even_error[of "x / u"] upos by (intro mult_right_mono) simp_all
  also have "1 / 2 * u = 2 powi (- int p) * 2 powi e"
  proof -
    have "(2::real) powi (- int p) * 2 powi e = 2 powi (- int p + e)"
      by (rule power_int_add[symmetric]) simp
    also have "- int p + e = (e - int p + 1) - 1" by simp
    also have "(2::real) powi ((e - int p + 1) - 1) = 2 powi (e - int p + 1) / 2"
      by (subst power_int_diff) simp_all
    finally show ?thesis by (simp add: u_def)
  qed
  also have "\<dots> \<le> 2 powi (- int p) * x"
    using b by (intro mult_left_mono) simp_all
  finally show ?thesis .
qed

lemma fp_round_rel_error:
  assumes "0 < p"
  shows "\<bar>fp_round p x - x\<bar> \<le> 2 powi (- int p) * \<bar>x\<bar>"
proof -
  consider "x = 0" | "0 < x" | "x < 0" by linarith
  then show ?thesis
  proof cases
    case 1 then show ?thesis by simp
  next
    case 2 then show ?thesis using fp_round_abs_error_pos[OF assms 2] by simp
  next
    case 3
    then have "\<bar>fp_round p (- x) - (- x)\<bar> \<le> 2 powi (- int p) * (- x)"
      using assms by (intro fp_round_abs_error_pos) simp_all
    then show ?thesis using 3 by (simp add: fp_round_minus abs_minus_commute)
  qed
qed

lemma two_step_error:
  assumes "0 < q" and eps: "eps = 2 powi (- int q)"
  shows "\<bar>fp_round q (p * fp_round q (1 - d)) - p * (1 - d)\<bar>
         \<le> (2 * eps + eps * eps) * \<bar>p * (1 - d)\<bar>"
proof -
  define s where "s = fp_round q (1 - d)"
  define D where "D = \<bar>1 - d\<bar>"
  define T where "T = \<bar>p\<bar> * D"
  have epos: "0 \<le> eps" by (simp add: eps)
  have Dn: "0 \<le> D" by (simp add: D_def)
  have Tn: "0 \<le> T" by (simp add: T_def D_def)
  have T: "\<bar>p * (1 - d)\<bar> = T" by (simp add: T_def D_def abs_mult)
  have e1: "\<bar>s - (1 - d)\<bar> \<le> eps * D"
    unfolding s_def eps D_def by (rule fp_round_rel_error[OF assms(1)])
  have e2: "\<bar>fp_round q (p * s) - p * s\<bar> \<le> eps * \<bar>p * s\<bar>"
    unfolding eps by (rule fp_round_rel_error[OF assms(1)])
  have "\<bar>s\<bar> \<le> \<bar>1 - d\<bar> + \<bar>s - (1 - d)\<bar>" by linarith
  then have s_bound: "\<bar>s\<bar> \<le> D + eps * D" using e1 by (simp add: D_def)
  have "\<bar>p * s\<bar> = \<bar>p\<bar> * \<bar>s\<bar>" by (simp add: abs_mult)
  also have "\<dots> \<le> \<bar>p\<bar> * (D + eps * D)"
    using s_bound by (intro mult_left_mono) simp_all
  also have "\<dots> = T + eps * T" by (simp add: T_def algebra_simps)
  finally have ps: "\<bar>p * s\<bar> \<le> T + eps * T" .
  have "p * s - p * (1 - d) = p * (s - (1 - d))" by (simp add: algebra_simps)
  then have "\<bar>p * s - p * (1 - d)\<bar> = \<bar>p\<bar> * \<bar>s - (1 - d)\<bar>"
    by (simp only: abs_mult)
  also have "\<dots> \<le> \<bar>p\<bar> * (eps * D)"
    using e1 by (intro mult_left_mono) simp_all
  also have "\<dots> = eps * T" by (simp add: T_def)
  finally have pd: "\<bar>p * s - p * (1 - d)\<bar> \<le> eps * T" .
  have "eps * \<bar>p * s\<bar> \<le> eps * (T + eps * T)"
    using ps epos by (intro mult_left_mono) simp_all
  then have "\<bar>fp_round q (p * s) - p * s\<bar> \<le> eps * (T + eps * T)"
    using e2 by linarith
  then have "\<bar>fp_round q (p * s) - p * (1 - d)\<bar> \<le> eps * (T + eps * T) + eps * T"
    using pd by linarith
  also have "\<dots> = (2 * eps + eps * eps) * T" by (simp add: algebra_simps)
  finally show ?thesis by (simp only: s_def T)
qed

lemma disc_price_tolerance:
  "\<bar>fp_round 24 (p * fp_round 24 (1 - d)) - disc_price p d\<bar> \<le> 1 / 100000 * \<bar>disc_price p d\<bar>"
proof -
  define t where "t = p * (1 - d)"
  define f where "f = fp_round 24 (p * fp_round 24 (1 - d))"
  define a :: real where "a = 2 powi (- int 24)"
  define b :: real where "b = 2 powi (- int 53)"
  have f: "\<bar>f - t\<bar> \<le> (2 * a + a * a) * \<bar>t\<bar>"
    unfolding f_def t_def
    by (rule two_step_error) (simp_all add: a_def)
  have g: "\<bar>disc_price p d - t\<bar> \<le> (2 * b + b * b) * \<bar>t\<bar>"
    unfolding disc_price_def dmul_def dsub_def t_def
    by (rule two_step_error) (simp_all add: b_def)
  have av: "a = 1 / 16777216" by (simp add: a_def power_int_minus)
  have bv: "b = 1 / 9007199254740992" by (simp add: b_def power_int_minus)
  have ka: "2 * a + a * a \<le> 1 / 8000000" by (simp add: av)
  have kb: "2 * b + b * b \<le> 1 / 1000000000" by (simp add: bv)
  have tn: "0 \<le> \<bar>t\<bar>" by simp
  have f': "\<bar>f - t\<bar> \<le> 1 / 8000000 * \<bar>t\<bar>"
    using f mult_right_mono[OF ka tn] by linarith
  have g': "\<bar>disc_price p d - t\<bar> \<le> 1 / 1000000000 * \<bar>t\<bar>"
    using g mult_right_mono[OF kb tn] by linarith
  show ?thesis unfolding f_def[symmetric]
    using f' g' by (simp add: abs_le_iff abs_if split: if_splits)
qed

lemma FLT_MAX_representable: "fp_round 24 FLT_MAX = FLT_MAX"
proof -
  have "fp_round 24 (of_int (2 ^ 24 - 1) * 2 powi 104) = of_int (2 ^ 24 - 1) * 2 powi 104"
    by (rule fp_round_representable) simp_all
  then show ?thesis by (simp add: FLT_MAX_def)
qed

lemma round_binary32_normal:
  assumes "FLT_MIN \<le> \<bar>x\<bar>" "\<bar>x\<bar> \<le> FLT_MAX"
  shows "round_binary32 x = Finite (fp_round 24 x)"
proof -
  have "fp_round 24 x \<le> fp_round 24 FLT_MAX"
    using assms(2) by (intro fp_round_mono) simp_all
  then have hi: "fp_round 24 x \<le> FLT_MAX" by (simp only: FLT_MAX_representable)
  have "fp_round 24 (- FLT_MAX) \<le> fp_round 24 x"
    using assms(2) by (intro fp_round_mono) simp_all
  then have lo: "- FLT_MAX \<le> fp_round 24 x"
    by (simp only: fp_round_minus FLT_MAX_representable)
  show ?thesis using assms(1) hi lo by (simp add: round_binary32_def Let_def)
qed

lemma FLT_MIN_val: "FLT_MIN = 1 / 2 ^ 126"
  by (simp add: FLT_MIN_def power_int_minus inverse_eq_divide)

lemma pow_m125: "(2::real) powi (- 125) = 1 / 2 ^ 125"
  by (simp add: power_int_minus inverse_eq_divide)

lemma round_binary32_0: "round_binary32 0 = Finite 0"
  using round_half_even_of_int[of 0]
  by (simp add: round_binary32_def FLT_MIN_val FLT_MAX_def Let_def)

lemma round_binary32_in_range:
  assumes "x = 0 \<or> (FLT_MIN \<le> \<bar>x\<bar> \<and> \<bar>x\<bar> \<le> FLT_MAX)"
  shows "round_binary32 x = Finite (fp_round 24 x)"
  using assms round_binary32_0 round_binary32_normal by auto

lemma normal_range_round:
  assumes "normal_range x"
  shows "round_binary32 x = Finite (fp_round 24 x)"
proof (rule round_binary32_in_range)
  have a: "(1::real) / 2 ^ 126 \<le> 1 / 2 ^ 125" by simp
  have b: "(2::real) ^ 127 \<le> FLT_MAX" by (simp add: FLT_MAX_def)
  show "x = 0 \<or> (FLT_MIN \<le> \<bar>x\<bar> \<and> \<bar>x\<bar> \<le> FLT_MAX)"
    using assms a b unfolding normal_range_def FLT_MIN_val pow_m125 by linarith
qed

lemma product_in_range:
  assumes "normal_range (p * (1 - d))"
  shows "p * fp_round 24 (1 - d) = 0
         \<or> (FLT_MIN \<le> \<bar>p * fp_round 24 (1 - d)\<bar> \<and> \<bar>p * fp_round 24 (1 - d)\<bar> \<le> FLT_MAX)"
proof (cases "p * (1 - d) = 0")
  case True
  then have "p = 0 \<or> 1 - d = 0" by simp
  then show ?thesis by auto
next
  case False
  define t where "t = p * (1 - d)"
  define s where "s = fp_round 24 (1 - d)"
  define e :: real where "e = 1 / 2 ^ 24"
  have r: "1 / 2 ^ 125 \<le> \<bar>t\<bar>" "\<bar>t\<bar> \<le> 2 ^ 127"
    using assms False unfolding normal_range_def pow_m125 t_def by simp_all
  have "\<bar>s - (1 - d)\<bar> \<le> 2 powi (- int 24) * \<bar>1 - d\<bar>"
    unfolding s_def by (rule fp_round_rel_error) simp
  then have se: "\<bar>s - (1 - d)\<bar> \<le> e * \<bar>1 - d\<bar>"
    by (simp add: e_def power_int_minus inverse_eq_divide)
  have "p * s - t = p * (s - (1 - d))" by (simp add: t_def algebra_simps)
  then have "\<bar>p * s - t\<bar> = \<bar>p\<bar> * \<bar>s - (1 - d)\<bar>" by (simp only: abs_mult)
  also have "\<dots> \<le> \<bar>p\<bar> * (e * \<bar>1 - d\<bar>)"
    using se by (intro mult_left_mono) simp_all
  also have "\<dots> = e * \<bar>t\<bar>" by (simp add: t_def abs_mult)
  finally have d: "\<bar>p * s - t\<bar> \<le> e * \<bar>t\<bar>" .
  have lo: "\<bar>t\<bar> - e * \<bar>t\<bar> \<le> \<bar>p * s\<bar>" using d by linarith
  have hi: "\<bar>p * s\<bar> \<le> \<bar>t\<bar> + e * \<bar>t\<bar>" using d by linarith
  have e1: "e * \<bar>t\<bar> \<le> e * 2 ^ 127" using r(2) by (intro mult_left_mono) (simp_all add: e_def)
  have e2: "e * \<bar>t\<bar> \<le> \<bar>t\<bar> / 2"
    using mult_right_mono[of e "1 / 2" "\<bar>t\<bar>"] by (simp add: e_def)
  have "\<bar>p * s\<bar> \<le> \<bar>t\<bar> + e * \<bar>t\<bar>" by (rule hi)
  also have "\<dots> \<le> 2 ^ 127 + e * 2 ^ 127" using r(2) e1 by (rule add_mono)
  also have "\<dots> \<le> FLT_MAX" by (simp add: e_def FLT_MAX_def)
  finally have up: "\<bar>p * s\<bar> \<le> FLT_MAX" .
  have h: "\<bar>t\<bar> / 2 \<le> \<bar>p * s\<bar>" using lo e2 by linarith
  have "(1::real) / 2 ^ 126 = (1 / 2 ^ 125) / 2" by simp
  also have "\<dots> \<le> \<bar>t\<bar> / 2" using r(1) by (rule divide_right_mono) simp
  also note h
  finally have "1 / 2 ^ 126 \<le> \<bar>p * s\<bar>" .
  then show ?thesis using up by (simp add: FLT_MIN_val s_def)
qed

lemma disc_price_f32_finite:
  assumes "normal_range (1 - d)" "normal_range (p * (1 - d))"
  shows "disc_price_f32 (Finite p) (Finite d) = Finite (fp_round 24 (p * fp_round 24 (1 - d)))"
proof -
  have "fsub (Finite 1) (Finite d) = Finite (fp_round 24 (1 - d))"
    using normal_range_round[OF assms(1)] by simp
  moreover have "round_binary32 (p * fp_round 24 (1 - d))
                 = Finite (fp_round 24 (p * fp_round 24 (1 - d)))"
    using product_in_range[OF assms(2)] by (rule round_binary32_in_range)
  ultimately show ?thesis by (simp add: disc_price_f32_def)
qed

lemma disc_price_f32_within_tolerance:
  assumes "normal_range (1 - d)" "normal_range (p * (1 - d))"
  shows "within_tolerance (disc_price_f32 (Finite p) (Finite d)) (disc_price p d)"
  using disc_price_tolerance[of p d]
  by (simp add: disc_price_f32_finite[OF assms] within_tolerance_def)

lemma disc_price_f32_overflow: "disc_price_f32 (Finite (3 * 2 ^ 126)) (Finite (- 1)) = PosInf"
proof -
  have a: "fp_round 24 2 = 2" using fp_round_of_int[of 24 2] by simp
  have "round_binary32 2 = Finite (fp_round 24 2)"
    by (rule round_binary32_normal) (simp_all add: FLT_MIN_val FLT_MAX_def)
  then have s: "round_binary32 2 = Finite 2" by (simp only: a)
  have "fp_round 24 (of_int 3 * 2 powi 127) = of_int 3 * 2 powi 127"
    by (rule fp_round_representable) simp_all
  then have b: "fp_round 24 (3 * 2 ^ 127) = 3 * 2 ^ 127" by simp
  have r: "round_binary32 (3 * 2 ^ 127) = PosInf"
    using b by (simp add: round_binary32_def Let_def FLT_MIN_val FLT_MAX_def)
  show ?thesis using s r by (simp add: disc_price_f32_def)
qed

lemma disc_price_reference: "disc_price (3 * 2 ^ 126) (- 1) = 3 * 2 ^ 127"
proof -
  have a: "fp_round 53 2 = 2" using fp_round_of_int[of 53 2] by simp
  have "fp_round 53 (of_int 3 * 2 powi 127) = of_int 3 * 2 powi 127"
    by (rule fp_round_representable) simp_all
  then have b: "fp_round 53 (3 * 2 ^ 127) = 3 * 2 ^ 127" by simp
  show ?thesis using a b by (simp add: disc_price_def dmul_def dsub_def)
qed


text \<open>
  Claim C3, as stated, fails for the \<open>float\<close> kernel. The price \<open>3 * 2^126\<close> and the
  discount \<open>-1\<close> are values of binary32. The kernel computes \<open>1 - (-1) = 2\<close> and then the
  product \<open>3 * 2^127\<close>, which lies above \<open>FLT_MAX\<close>: the element stored is the
  infinity, for every vector length. The scalar reference in \<open>double\<close> is the finite
  \<open>3 * 2^127\<close>, and no relative tolerance holds between the two.
\<close>

theorem disc_price_overflows:
  "(\<forall>hw. compute_disc_price_rvv hw [Finite (3 * 2 ^ 126)] [Finite (- 1)] [Finite 0] 1
          = Some [PosInf])
   \<and> disc_price (3 * 2 ^ 126) (- 1) = 3 * 2 ^ 127
   \<and> \<not> within_tolerance PosInf (disc_price (3 * 2 ^ 126) (- 1))"
proof -
  have "compute_disc_price_rvv hw [Finite (3 * 2 ^ 126)] [Finite (- 1)] [Finite 0] 1
        = Some (map2 disc_price_f32 (take 1 [Finite (3 * 2 ^ 126)]) (take 1 [Finite (- 1)])
                @ drop 1 [Finite 0])" for hw
    by (rule compute_disc_price_rvv_result) simp_all
  then have k: "\<forall>hw. compute_disc_price_rvv hw [Finite (3 * 2 ^ 126)] [Finite (- 1)] [Finite 0] 1
        = Some [PosInf]"
    using disc_price_f32_overflow by simp
  have w: "\<not> within_tolerance PosInf (disc_price (3 * 2 ^ 126) (- 1))"
    by (simp add: within_tolerance_def)
  from k disc_price_reference w show ?thesis by blast
qed

text \<open>
  Claim C3, amended. Let the prices and the discounts be finite, and let \<open>1 - discount[i]\<close>
  and \<open>extendedprice[i] * (1 - discount[i])\<close> be zero or of a magnitude between \<open>2^-125\<close>
  and \<open>2^127\<close> for every \<open>i < n\<close>. Then, for every vector length of the hardware and every
  element count \<open>n\<close> within the buffers, \<open>compute_disc_price_rvv\<close> returns, and element
  \<open>i < n\<close> of its output is \<open>extendedprice[i] * (1 - discount[i])\<close> evaluated in \<open>float\<close>:
  a finite value that differs from the scalar reference in \<open>double\<close> by at most the
  relative tolerance \<open>1e-5\<close>; the elements from \<open>n\<close> on are left as they were.
  \<open>check_late_delivery_rvv\<close> returns, and bit \<open>k\<close> of its result is set exactly when it
  was set before or \<open>k < len\<close> and \<open>commitdates[k] < receiptdates[k]\<close>: on the zeroed
  buffer of the caller, exactly when the line item is late.
\<close>

theorem rvv_kernels_agree_in_normal_range:
  assumes "n \<le> length extendedprice" "n \<le> length discount" "n \<le> length result"
    and "\<forall>i<n. normal_range (1 - discount ! i)
               \<and> normal_range (extendedprice ! i * (1 - discount ! i))"
    and "len \<le> length commitdates" "len \<le> length receiptdates"
    and "(len + 7) div 8 \<le> length results"
  shows "(\<exists>out. compute_disc_price_rvv hw (map Finite extendedprice) (map Finite discount)
                  result n = Some out
            \<and> length out = length result
            \<and> (\<forall>i<n. out ! i
                       = disc_price_f32 (Finite (extendedprice ! i)) (Finite (discount ! i))
                   \<and> within_tolerance (out ! i)
                       (disc_price (extendedprice ! i) (discount ! i)))
            \<and> (\<forall>i\<ge>n. i < length result \<longrightarrow> out ! i = result ! i))
       \<and> (\<exists>res. check_late_delivery_rvv hw commitdates receiptdates results len = Some res
            \<and> length res = length results
            \<and> (\<forall>k. mask_bit res k
                   = (mask_bit results k \<or> (k < len \<and> commitdates ! k <s receiptdates ! k))))"
proof -
  let ?p = "map Finite extendedprice" and ?d = "map Finite discount"
  define out where "out = map2 disc_price_f32 (take n ?p) (take n ?d) @ drop n result"
  have r: "compute_disc_price_rvv hw ?p ?d result n = Some out"
    unfolding out_def by (rule compute_disc_price_rvv_result) (simp_all add: assms(1-3))
  have l: "length (map2 disc_price_f32 (take n ?p) (take n ?d)) = n"
    using assms(1,2) by simp
  have len_out: "length out = length result" using assms(1-3) by (simp add: out_def)
  have a: "out ! i = disc_price_f32 (Finite (extendedprice ! i)) (Finite (discount ! i))"
    if "i < n" for i
    using that assms(1,2) l by (simp add: out_def nth_append)
  have t: "within_tolerance (out ! i) (disc_price (extendedprice ! i) (discount ! i))"
    if "i < n" for i
    unfolding a[OF that] using assms(4) that by (intro disc_price_f32_within_tolerance) simp_all
  have b: "out ! i = result ! i" if "n \<le> i" "i < length result" for i
    using that l assms(3) by (simp add: out_def nth_append)
  have "\<exists>out. compute_disc_price_rvv hw ?p ?d result n = Some out
            \<and> length out = length result
            \<and> (\<forall>i<n. out ! i
                       = disc_price_f32 (Finite (extendedprice ! i)) (Finite (discount ! i))
                   \<and> within_tolerance (out ! i)
                       (disc_price (extendedprice ! i) (discount ! i)))
            \<and> (\<forall>i\<ge>n. i < length result \<longrightarrow> out ! i = result ! i)"
    using r len_out a t b by (intro exI[of _ out]) simp
  then show ?thesis
    using check_late_delivery_rvv_spec[OF assms(5-7), of hw] by blast
qed

theorem rvv_kernels_agree_in_normal_range_witness:
  "(\<exists>out. compute_disc_price_rvv 0 (map Finite [100, 200, 50]) (map Finite [0, 1 / 2, 1 / 4])
             [NaN, NaN, NaN, NaN] 3 = Some out
            \<and> length out = length [NaN, NaN, NaN, NaN]
            \<and> (\<forall>i<3. out ! i
                       = disc_price_f32 (Finite ([100, 200, 50] ! i))
                           (Finite ([0, 1 / 2, 1 / 4] ! i))
                   \<and> within_tolerance (out ! i)
                       (disc_price ([100, 200, 50] ! i) ([0, 1 / 2, 1 / 4] ! i)))
            \<and> (\<forall>i\<ge>3. i < length [NaN, NaN, NaN, NaN]
                   \<longrightarrow> out ! i = [NaN, NaN, NaN, NaN] ! i))
       \<and> (\<exists>res. check_late_delivery_rvv 0 [1, 5, 3] [2, 4, 9] [0] 3 = Some res
            \<and> length res = length [0 :: uint8]
            \<and> (\<forall>k. mask_bit res k
                   = (mask_bit [0] k \<or> (k < 3 \<and> [1, 5, 3] ! k <s [2, 4, 9 :: int32] ! k))))"
proof (rule rvv_kernels_agree_in_normal_range)
  show "\<forall>i<3. normal_range (1 - [0, 1 / 2, 1 / 4] ! i)
               \<and> normal_range ([100, 200, 50] ! i * (1 - [0, 1 / 2, 1 / 4] ! i))"
  proof (intro allI impI)
    fix i :: nat assume "i < 3"
    then consider "i = 0" | "i = 1" | "i = 2" by linarith
    then show "normal_range (1 - [0, 1 / 2, 1 / 4] ! i)
               \<and> normal_range ([100, 200, 50] ! i * (1 - [0, 1 / 2, 1 / 4] ! i))"
      by cases (simp_all add: normal_range_def pow_m125)
  qed
qed simp_all


section \<open>Properties of the result ordering\<close>

lemma Query9Result_less_key: "Query9Result_less a b \<longleftrightarrow> q9_key a < q9_key b"
  by (auto simp: Query9Result_less_def q9_key_def less_prod_def word_sless_alt)

lemma insert_sorted_mset: "mset (insert_sorted lt x xs) = add_mset x (mset xs)"
  by (induction xs) auto

lemma std_sort_mset: "mset (std_sort lt xs) = mset xs"
  by (induction xs) (auto simp: std_sort_def insert_sorted_mset)

lemma insert_sorted_set: "set (insert_sorted lt x xs) = insert x (set xs)"
  by (induction xs) auto

lemma insert_sorted_sorted:
  "sorted (map q9_key xs) \<Longrightarrow> sorted (map q9_key (insert_sorted Query9Result_less x xs))"
  by (induction xs) (auto simp: Query9Result_less_key insert_sorted_set)

lemma std_sort_sorted: "sorted (map q9_key (std_sort Query9Result_less xs))"
proof (induction xs)
  case Nil
  show ?case by (simp add: std_sort_def)
next
  case (Cons x xs)
  then show ?case using insert_sorted_sorted[of "std_sort Query9Result_less xs" x]
    by (simp add: std_sort_def)
qed

lemma sorted_wrt_not_less:
  "sorted_wrt (\<lambda>a b. \<not> Query9Result_less b a) xs \<longleftrightarrow> sorted (map q9_key xs)"
  by (simp add: sorted_map Query9Result_less_key not_less)

lemma Query9Result_less_total:
  "Query9Result_less a b \<or> Query9Result_less b a
   \<or> (nation a = nation b \<and> o_year a = o_year b)"
proof -
  have "sint (o_year a) = sint (o_year b) \<Longrightarrow> o_year a = o_year b"
    by (rule signed_word_eqI) simp
  then show ?thesis
    by (cases "sint (o_year a)" "sint (o_year b)" rule: linorder_cases)
       (auto simp: Query9Result_less_def word_sless_alt)
qed

text \<open>
  Claim C8. The vector of results that Query 9 prints is a permutation of the groups of
  the map, sorted by \<open>operator<\<close> of \<open>Query9Result\<close>: no element is followed by one that
  the comparator puts strictly before it. The comparator orders by nation ascending and,
  within a nation, by year descending, and it decides every pair of groups that differ in
  nation or year. The groups \<open>("A", 1)\<close> and \<open>("A", 2)\<close>, which the map iterates in this
  order, are emitted as \<open>("A", 2)\<close> then \<open>("A", 1)\<close>.
\<close>

theorem result_projection_ordered:
  "sorted_wrt (\<lambda>a b. \<not> Query9Result_less b a) (project_results groups)
   \<and> mset (project_results groups) = mset (map to_result groups)
   \<and> (Query9Result_less a b \<or> Query9Result_less b a
        \<or> (nation a = nation b \<and> o_year a = o_year b))
   \<and> Query9Result_less a b
       = (nation a < nation b \<or> (nation a = nation b \<and> o_year b <s o_year a))
   \<and> map (\<lambda>r. (nation r, o_year r, sum_profit r))
        (project_results [(\<lparr>key_nation = ''A'', key_year = 1\<rparr>, p1),
                          (\<lparr>key_nation = ''A'', key_year = 2\<rparr>, p2)])
       = [(''A'', 2, p2), (''A'', 1, p1)]"
proof -
  have "sorted_wrt (\<lambda>a b. \<not> Query9Result_less b a) (project_results groups)"
    by (simp add: sorted_wrt_not_less project_results_def std_sort_sorted)
  moreover have "mset (project_results groups) = mset (map to_result groups)"
    by (simp add: project_results_def std_sort_mset)
  moreover have "Query9Result_less a b
       = (nation a < nation b \<or> (nation a = nation b \<and> o_year b <s o_year a))"
    by (auto simp: Query9Result_less_def)
  moreover have "map (\<lambda>r. (nation r, o_year r, sum_profit r))
        (project_results [(\<lparr>key_nation = ''A'', key_year = 1\<rparr>, p1),
                          (\<lparr>key_nation = ''A'', key_year = 2\<rparr>, p2)])
       = [(''A'', 2, p2), (''A'', 1, p1)]"
    by (simp add: project_results_def std_sort_def to_result_def Query9Result_less_def
        word_sless_alt)
  ultimately show ?thesis
    using Query9Result_less_total[of a b] by blast
qed


section \<open>Properties of the joins\<close>

lemma q12_row_unmatched:
  "order_priorities (raw (l_orderkey r)) = None \<Longrightarrow>
   q12_row order_priorities s e st r = st\<lparr>rows_processed := rows_processed st + 1\<rparr>"
  by (simp add: q12_row_def Let_def)

lemma q12_row_processed:
  "q12_row op s e (st\<lparr>rows_processed := k\<rparr>) r
   = (q12_row op s e st r)\<lparr>rows_processed := k + 1\<rparr>"
  by (simp add: q12_row_def Let_def split: option.splits)

lemma q12_chunk_processed:
  "q12_chunk op s e rows (st\<lparr>rows_processed := k\<rparr>)
   = (q12_chunk op s e rows st)\<lparr>rows_processed := k + int (length rows)\<rparr>"
proof (induction rows arbitrary: st k)
  case Nil
  show ?case by (simp add: q12_chunk_def)
next
  case (Cons r rows)
  have "q12_chunk op s e (r # rows) (st\<lparr>rows_processed := k\<rparr>)
        = q12_chunk op s e rows ((q12_row op s e st r)\<lparr>rows_processed := k + 1\<rparr>)"
    by (simp add: q12_chunk_def q12_row_processed)
  also have "\<dots> = (q12_chunk op s e rows (q12_row op s e st r))
                       \<lparr>rows_processed := k + 1 + int (length rows)\<rparr>"
    by (rule Cons.IH)
  finally show ?case by (simp add: q12_chunk_def add.assoc add.commute)
qed

lemma q12_row_rows_processed:
  "rows_processed (q12_row op s e st r) = rows_processed st + 1"
  by (simp add: q12_row_def Let_def split: option.splits)

lemma q12_chunk_filter:
  "q12_chunk op s e rows st
   = (q12_chunk op s e (filter (\<lambda>r. op (raw (l_orderkey r)) \<noteq> None) rows) st)
       \<lparr>rows_processed := rows_processed st + int (length rows)\<rparr>"
proof (induction rows arbitrary: st)
  case Nil
  show ?case by (simp add: q12_chunk_def)
next
  case (Cons r rows)
  show ?case
  proof (cases "op (raw (l_orderkey r))")
    case None
    have "q12_chunk op s e (r # rows) st
          = q12_chunk op s e rows (st\<lparr>rows_processed := rows_processed st + 1\<rparr>)"
      using None by (simp add: q12_chunk_def q12_row_unmatched)
    also have "\<dots> = (q12_chunk op s e rows st)
                         \<lparr>rows_processed := rows_processed st + 1 + int (length rows)\<rparr>"
      by (rule q12_chunk_processed)
    finally show ?thesis using None Cons.IH[of st]
      by (simp add: add.assoc add.commute)
  next
    case (Some p)
    have "q12_chunk op s e (r # rows) st = q12_chunk op s e rows (q12_row op s e st r)"
      by (simp add: q12_chunk_def)
    then show ?thesis using Some Cons.IH[of "q12_row op s e st r"]
      by (simp add: q12_chunk_def q12_row_rows_processed add.assoc add.commute)
  qed
qed

lemma q4_row_unmatched:
  "raw (o_orderkey r) \<notin> Q \<Longrightarrow> q4_row Q s e m r = m"
  by (simp add: q4_row_def Let_def)

lemma q4_chunk_filter:
  "q4_chunk Q s e rows m = q4_chunk Q s e (filter (\<lambda>r. raw (o_orderkey r) \<in> Q) rows) m"
  by (induction rows arbitrary: m) (simp_all add: q4_chunk_def q4_row_unmatched)

lemma scenarioB_build:
  "q12_build [scenarioB_orders] = [1 \<mapsto> ''1-URGENT'', 2 \<mapsto> ''5-LOW'']"
  by (simp add: q12_build_def scenarioB_orders_def q12_build_row_def IsNull_def present_def)

lemma scenarioB_probe:
  "q12_probe (q12_build [scenarioB_orders]) date_1994_01_01 date_1995_01_01
      [[scenarioB_item 1, scenarioB_item 1, scenarioB_item 3]]
   = \<lparr>results_by_shipmode =
        [''MAIL'' \<mapsto> \<lparr>l_shipmode_of = ''MAIL'', high_line_count = 2, low_line_count = 0\<rparr>],
      rows_processed = 3, rows_qualified = 2\<rparr>"
  by (simp add: scenarioB_build q12_probe_def q12_chunk_def q12_row_def q12_init_def
      scenarioB_item_def IsNull_def present_def target_shipmodes_def bump_priority_def
      date_1994_01_01_def date_1995_01_01_def word_sless_alt word_sle_eq Let_def)

text \<open>
  Claim C4. A probe row whose key has no match on the build side changes no group: the
  probe loop of Query 12 ends in the same state as on the chunk with those line items
  removed, except that \<open>rows_processed\<close> counts them, and the probe loop of Query 4 ends
  with the same counts as on the chunk without the orders whose key is not in the set of
  qualifying keys. With the build keys 1 and 2 and probe rows with the keys 1, 1 and 3,
  Query 12 counts two joined rows (both for key 1) and none for key 3.
\<close>

theorem unmatched_probe_rows_excluded:
  "q12_chunk op s e rows st
     = (q12_chunk op s e (filter (\<lambda>r. op (raw (l_orderkey r)) \<noteq> None) rows) st)
         \<lparr>rows_processed := rows_processed st + int (length rows)\<rparr>
   \<and> q4_chunk Q s e orders m
       = q4_chunk Q s e (filter (\<lambda>r. raw (o_orderkey r) \<in> Q) orders) m
   \<and> q12_probe (q12_build [scenarioB_orders]) date_1994_01_01 date_1995_01_01
        [[scenarioB_item 1, scenarioB_item 1, scenarioB_item 3]]
       = \<lparr>results_by_shipmode =
            [''MAIL'' \<mapsto> \<lparr>l_shipmode_of = ''MAIL'', high_line_count = 2,
                          low_line_count = 0\<rparr>],
          rows_processed = 3, rows_qualified = 2\<rparr>"
  using q12_chunk_filter[of op s e rows st] q4_chunk_filter[of Q s e orders m] scenarioB_probe
  by blast


section \<open>Properties of null handling\<close>

lemma check_shipping_conditions_rvv_spec:
  assumes "len \<le> length shipdate" "len \<le> length commitdate" "len \<le> length receiptdate"
    and "(len + 7) div 8 \<le> length results"
  shows "\<exists>res. check_shipping_conditions_rvv hw shipdate commitdate receiptdate start_date
                  end_date results len = Some res
           \<and> length res = length results
           \<and> (\<forall>k. mask_bit res k
                  = (mask_bit results k
                     \<or> (k < len \<and> commitdate ! k <s receiptdate ! k
                         \<and> shipdate ! k <s commitdate ! k
                         \<and> start_date \<le>s receiptdate ! k \<and> receiptdate ! k <s end_date)))"
proof -
  define c where "c = (\<lambda>k. commitdate ! k <s receiptdate ! k \<and> shipdate ! k <s commitdate ! k
                         \<and> start_date \<le>s receiptdate ! k \<and> receiptdate ! k <s end_date)"
  define P where "P = (\<lambda>i res. length res = length results
                     \<and> (\<forall>k. mask_bit res k = (mask_bit results k \<or> (k < i \<and> c k))))"
  have "\<exists>s'. strip_mine hw (check_shipping_conditions_body shipdate commitdate receiptdate
                              start_date end_date) len 0 results = Some s' \<and> P len s'"
  proof (rule strip_mine_invariant)
    show "0 \<le> len" by simp
    show "P 0 results" by (simp add: P_def)
  next
    fix i vl s
    assume a: "i < len" "0 < vl" "i + vl \<le> len" "P i s"
    have "\<exists>res. store_mask_bits (shipping_at shipdate commitdate receiptdate start_date end_date)
                   i [0..<vl] s = Some res
            \<and> length res = length s
            \<and> (\<forall>k. mask_bit res k = (mask_bit s k \<or> (\<exists>j\<in>set [0..<vl]. k = i + j \<and> c k)))"
    proof (rule store_mask_bits_spec)
      fix j assume "j \<in> set [0..<vl]"
      then have "i + j < len" using a(3) by simp
      then show "shipping_at shipdate commitdate receiptdate start_date end_date (i + j)
                 = Some (c (i + j))"
        using assms(1-3) by (simp add: shipping_at_def c_def)
      show "(i + j) div 8 < length s"
        using \<open>i + j < len\<close> assms(4) a(4) by (simp add: P_def)
    qed
    then obtain res where res:
      "store_mask_bits (shipping_at shipdate commitdate receiptdate start_date end_date)
         i [0..<vl] s = Some res"
      "length res = length s"
      "\<forall>k. mask_bit res k = (mask_bit s k \<or> (\<exists>j\<in>set [0..<vl]. k = i + j \<and> c k))"
      by blast
    have "(\<exists>j\<in>set [0..<vl]. k = i + j \<and> c k) = (i \<le> k \<and> k < i + vl \<and> c k)" for k
      by (auto intro: bexI[of _ "k - i"])
    then have "P (i + vl) res" using res a(4) by (auto simp: P_def)
    moreover have "check_shipping_conditions_body shipdate commitdate receiptdate start_date
                     end_date i vl s = Some res"
      using a(3) assms(1-3) res(1)
      by (simp add: check_shipping_conditions_body_def vle32_def Let_def)
    ultimately show "\<exists>s'. check_shipping_conditions_body shipdate commitdate receiptdate
                             start_date end_date i vl s = Some s' \<and> P (i + vl) s'" by blast
  qed
  then show ?thesis by (auto simp: check_shipping_conditions_rvv_def P_def c_def)
qed

lemma null_shipdate_scalar:
  "q12_probe (q12_build [scenarioB_orders]) date_1994_01_01 date_1995_01_01 [[null_shipdate_item]]
   = \<lparr>results_by_shipmode = Map.empty, rows_processed = 1, rows_qualified = 0\<rparr>"
  by (simp add: q12_probe_def q12_chunk_def q12_row_def q12_init_def null_shipdate_item_def
      IsNull_def present_def null_slot_def Let_def)

lemma null_shipdate_rvv:
  "RunQuery12 hw [scenarioB_orders] [[null_shipdate_item]]
   = Some \<lparr>results_by_shipmode =
             [''MAIL'' \<mapsto> \<lparr>l_shipmode_of = ''MAIL'', high_line_count = 1, low_line_count = 0\<rparr>],
           rows_processed = 1, rows_qualified = 1\<rparr>"
proof -
  obtain res where res:
    "check_shipping_conditions_rvv hw [0] [8810] [8820] date_1994_01_01 date_1995_01_01 [0] 1
     = Some res"
    "\<forall>k. mask_bit res k
         = (mask_bit [0] k
            \<or> (k < 1 \<and> [8810] ! k <s [8820 :: int32] ! k \<and> [0] ! k <s [8810 :: int32] ! k
                \<and> date_1994_01_01 \<le>s [8820] ! k \<and> [8820] ! k <s date_1995_01_01))"
    using check_shipping_conditions_rvv_spec[of 1 "[0]" "[8810]" "[8820]" "[0]" hw
        date_1994_01_01 date_1995_01_01]
    by auto
  have "mask_bit res 0"
    using res(2) by (simp add: date_1994_01_01_def date_1995_01_01_def word_sless_alt word_sle_eq)
  then show ?thesis
    using res(1)
    by (simp add: RunQuery12_def scenarioB_build rvv_q12_chunk_def rvv_q12_row_def q12_init_def
        null_shipdate_item_def IsNull_def present_def null_slot_def target_shipmodes_def
        bump_priority_def Let_def enumerate_eq_zip)
qed

lemma q12_row_null:
  "IsNull (l_orderkey r) \<or> IsNull (l_shipmode r) \<or> IsNull (l_shipdate r)
     \<or> IsNull (l_commitdate r) \<or> IsNull (l_receiptdate r)
   \<Longrightarrow> q12_row op s e st r = st\<lparr>rows_processed := rows_processed st + 1\<rparr>"
  by (simp add: q12_row_def Let_def)

lemma q6_row_null:
  "IsNull (q6_shipdate r) \<or> IsNull (q6_quantity r) \<or> IsNull (q6_extendedprice r)
     \<or> IsNull (q6_discount r)
   \<Longrightarrow> q6_row_step qs ps ds s e st r = st\<lparr>q6_rows_processed := q6_rows_processed st + 1\<rparr>"
  by (simp add: q6_row_step_def Let_def)

lemma q4_row_null:
  "IsNull (o_orderkey r) \<or> IsNull (o_orderdate r) \<or> IsNull (o_orderpriority r)
   \<Longrightarrow> q4_row Q s e m r = m"
  by (simp add: q4_row_def)

text \<open>
  Claim C2. The scalar programs skip a row with a null in a predicate column (the three
  lemmas above). The RVV program of Query 12 does not: for a line item with a null ship
  date, whose commit and receipt dates and ship mode pass the filter, it counts the row,
  because the kernel compares the raw buffer value under the null. The scalar program
  excludes the same row.
\<close>

theorem null_shipdate_row_counted:
  "RunQuery12 hw [scenarioB_orders] [[null_shipdate_item]]
     = Some \<lparr>results_by_shipmode =
               [''MAIL'' \<mapsto> \<lparr>l_shipmode_of = ''MAIL'', high_line_count = 1,
                             low_line_count = 0\<rparr>],
             rows_processed = 1, rows_qualified = 1\<rparr>
   \<and> q12_probe (q12_build [scenarioB_orders]) date_1994_01_01 date_1995_01_01
        [[null_shipdate_item]]
       = \<lparr>results_by_shipmode = Map.empty, rows_processed = 1, rows_qualified = 0\<rparr>
   \<and> IsNull (l_shipdate null_shipdate_item)"
  using null_shipdate_rvv[of hw] null_shipdate_scalar
  by (simp add: null_shipdate_item_def IsNull_def null_slot_def)


section \<open>Properties of the accesses to chunk 0\<close>

lemma strip_mine_out_of_bounds:
  assumes oob: "\<And>i vl s. m < i + vl \<Longrightarrow> body i vl s = None"
  shows "i \<le> m \<Longrightarrow> m < n \<Longrightarrow> strip_mine hw body n i s = None"
proof (induction "n - i" arbitrary: i s rule: less_induct)
  case less
  define vl where "vl = vsetvl_e32m8 hw (n - i)"
  have lt: "i < n" using less.prems by simp
  have vl: "0 < vl" using lt vsetvl_pos[of "n - i" hw] by (simp add: vl_def)
  show ?case
  proof (cases "body i vl s")
    case None
    then show ?thesis using lt by (subst strip_mine.simps) (simp add: vl_def)
  next
    case (Some s')
    then have "i + vl \<le> m" using oob[of i vl s] by (cases "m < i + vl") simp_all
    moreover have "n - (i + vl) < n - i" using lt vl by simp
    ultimately have "strip_mine hw body n (i + vl) s' = None"
      using less.hyps[of "i + vl" s'] less.prems(2) by simp
    then show ?thesis using lt Some by (subst strip_mine.simps) (simp add: vl_def)
  qed
qed

lemma check_late_delivery_rvv_out_of_bounds:
  "length commitdates < len \<Longrightarrow> check_late_delivery_rvv hw commitdates receiptdates results len = None"
  unfolding check_late_delivery_rvv_def
  by (rule strip_mine_out_of_bounds[where m = "length commitdates"])
     (simp_all add: check_late_delivery_body_def vle32_def)

lemma mask_bit_zero: "k div 8 < m \<Longrightarrow> mask_bit (replicate m 0) k = False"
  by (simp add: mask_bit_def)

lemma collect_late_keys_spec:
  assumes "\<And>i. i \<in> set js \<Longrightarrow> mask_bit late_mask i \<Longrightarrow> i < length keys"
  shows "collect_late_keys keys late_mask js late
         = Some (late \<union> {keys ! i |i. i \<in> set js \<and> mask_bit late_mask i})"
  using assms
proof (induction js arbitrary: late)
  case Nil
  then show ?case by simp
next
  case (Cons j js)
  have ih: "collect_late_keys keys late_mask js l
            = Some (l \<union> {keys ! i |i. i \<in> set js \<and> mask_bit late_mask i})" for l
    using Cons.IH[of l] Cons.prems by simp
  show ?case
  proof (cases "mask_bit late_mask j")
    case True
    then have "j < length keys" using Cons.prems[of j] by simp
    then show ?thesis using True ih by (auto simp: Value_def)
  next
    case False
    then show ?thesis using ih by auto
  qed
qed

lemma collect_late_keys_out_of_bounds:
  assumes "j \<in> set js" "mask_bit late_mask j" "length keys \<le> j"
  shows "collect_late_keys keys late_mask js late = None"
  using assms
proof (induction js arbitrary: late)
  case Nil
  then show ?case by simp
next
  case (Cons i js)
  show ?case
  proof (cases "i = j")
    case True
    then show ?thesis using Cons.prems by (simp add: Value_def)
  next
    case False
    then have "j \<in> set js" using Cons.prems(1) by simp
    then have "collect_late_keys keys late_mask js l = None" for l
      using Cons.IH[of l] Cons.prems(2,3) by simp
    then show ?thesis by (simp add: Let_def split: option.splits)
  qed
qed

lemma rvv_q4_single_chunk:
  "rvv_q4_late_order_keys hw [c0]
   = Some {raw (q4_orderkey r) |r. r \<in> set c0 \<and> raw (q4_commitdate r) <s raw (q4_receiptdate r)}"
proof -
  define n where "n = length c0"
  define commit where "commit = map (\<lambda>r. raw (q4_commitdate r)) c0"
  define receipt where "receipt = map (\<lambda>r. raw (q4_receiptdate r)) c0"
  define keys where "keys = map (\<lambda>r. raw (q4_orderkey r)) c0"
  obtain res where res:
    "check_late_delivery_rvv hw commit receipt (replicate ((n + 7) div 8) 0) n = Some res"
    "\<forall>k. mask_bit res k = (mask_bit (replicate ((n + 7) div 8) 0) k
                           \<or> (k < n \<and> commit ! k <s receipt ! k))"
    using check_late_delivery_rvv_spec[of n commit receipt "replicate ((n + 7) div 8) 0" hw]
    by (auto simp: commit_def receipt_def n_def)
  have bit: "mask_bit res k = (commit ! k <s receipt ! k)" if "k < n" for k
  proof -
    have "k div 8 < (n + 7) div 8" using that by linarith
    then show ?thesis using res(2) that by (simp add: mask_bit_zero)
  qed
  have "collect_late_keys keys res [0..<n] {}
        = Some ({} \<union> {keys ! i |i. i \<in> set [0..<n] \<and> mask_bit res i})"
    by (rule collect_late_keys_spec) (simp add: keys_def n_def)
  also have "{keys ! i |i. i \<in> set [0..<n] \<and> mask_bit res i}
             = {keys ! i |i. i < n \<and> commit ! i <s receipt ! i}"
    using bit by auto
  also have "\<dots> = {raw (q4_orderkey r) |r. r \<in> set c0
                                          \<and> raw (q4_commitdate r) <s raw (q4_receiptdate r)}"
  proof (intro equalityI subsetI)
    fix x assume "x \<in> {keys ! i |i. i < n \<and> commit ! i <s receipt ! i}"
    then obtain i where i: "i < n" "commit ! i <s receipt ! i" "x = keys ! i" by blast
    have "c0 ! i \<in> set c0" using i(1) by (simp add: n_def)
    moreover have "raw (q4_commitdate (c0 ! i)) <s raw (q4_receiptdate (c0 ! i))"
      using i(1,2) by (simp add: commit_def receipt_def n_def)
    moreover have "x = raw (q4_orderkey (c0 ! i))" using i(1,3) by (simp add: keys_def n_def)
    ultimately show "x \<in> {raw (q4_orderkey r) |r. r \<in> set c0
                              \<and> raw (q4_commitdate r) <s raw (q4_receiptdate r)}"
      by blast
  next
    fix x assume "x \<in> {raw (q4_orderkey r) |r. r \<in> set c0
                           \<and> raw (q4_commitdate r) <s raw (q4_receiptdate r)}"
    then obtain r where r: "r \<in> set c0" "raw (q4_commitdate r) <s raw (q4_receiptdate r)"
      "x = raw (q4_orderkey r)" by blast
    then obtain i where i: "i < n" "c0 ! i = r" by (auto simp: in_set_conv_nth n_def)
    have "commit ! i <s receipt ! i" using i r(2) by (simp add: commit_def receipt_def n_def)
    moreover have "x = keys ! i" using i r(3) by (simp add: keys_def n_def)
    ultimately show "x \<in> {keys ! i |i. i < n \<and> commit ! i <s receipt ! i}"
      using i(1) by blast
  qed
  finally show ?thesis
    using res(1)
    by (simp add: rvv_q4_late_order_keys_def chunk0_def num_rows_def Let_def n_def commit_def
        receipt_def keys_def)
qed

lemma rvv_q4_more_rows:
  assumes "concat rest \<noteq> []"
  shows "rvv_q4_late_order_keys hw (c0 # rest) = None"
proof -
  have "length c0 < num_rows (c0 # rest)" using assms by (simp add: num_rows_def)
  then show ?thesis
    by (simp add: rvv_q4_late_order_keys_def chunk0_def Let_def
        check_late_delivery_rvv_out_of_bounds)
qed

lemma rvv_q4_no_chunk: "rvv_q4_late_order_keys hw [] = None"
  by (simp add: rvv_q4_late_order_keys_def chunk0_def)

lemma those_map_Some:
  "(\<And>x. x \<in> set xs \<Longrightarrow> f x = Some (g x)) \<Longrightarrow> those (map f xs) = Some (map g xs)"
  by (induction xs) simp_all

lemma those_map_None:
  "x \<in> set xs \<Longrightarrow> f x = None \<Longrightarrow> those (map f xs) = None"
  by (induction xs) (auto split: option.splits)

lemma for_rows_in_bounds:
  assumes "n \<le> length c0"
  shows "for_rows n (\<lambda>i. case Value c0 i of None \<Rightarrow> None | Some r \<Rightarrow> Some (g r))
         = Some (map g (take n c0))"
proof -
  have "those (map (\<lambda>i. case Value c0 i of None \<Rightarrow> None | Some r \<Rightarrow> Some (g r)) [0..<n])
        = Some (map (\<lambda>i. g (c0 ! i)) [0..<n])"
    using assms by (intro those_map_Some) (simp add: Value_def)
  moreover have "map (\<lambda>i. g (c0 ! i)) [0..<n] = map g (take n c0)"
    using assms by (simp add: list_eq_iff_nth_eq)
  ultimately show ?thesis by (simp add: for_rows_def)
qed

lemma for_rows_out_of_bounds:
  assumes "length c0 < n"
  shows "for_rows n (\<lambda>i. case Value c0 i of None \<Rightarrow> None | Some r \<Rightarrow> Some (g r)) = None"
  unfolding for_rows_def
  by (rule those_map_None[where x = "length c0"]) (use assms in \<open>simp_all add: Value_def\<close>)

lemma RunQuery6_single_chunk:
  assumes "rl_chunks t = [c0]" "rl_extendedprice_type t = Some sf"
  shows "RunQuery6_decode t
         = Some (map (\<lambda>r. (rvv_decode (rl_extendedprice r) sf, rvv_decode (rl_discount r) sf)) c0)"
  using for_rows_in_bounds[of "length c0" c0
      "\<lambda>r. (rvv_decode (rl_extendedprice r) sf, rvv_decode (rl_discount r) sf)"]
  by (simp add: RunQuery6_decode_def assms chunk0_def num_rows_def)

lemma RunQuery6_more_rows:
  assumes "rl_chunks t = c0 # rest" "concat rest \<noteq> []" "rl_extendedprice_type t = Some sf"
  shows "RunQuery6_decode t = None"
proof -
  have "length c0 < num_rows (c0 # rest)" using assms(2) by (simp add: num_rows_def)
  then show ?thesis
    using for_rows_out_of_bounds[of c0 "num_rows (c0 # rest)"]
    by (simp add: RunQuery6_decode_def assms(1,3) chunk0_def)
qed

lemma RunQuery1RVV_single_chunk:
  assumes "rl_chunks t = [c0]" "rl_extendedprice_type t = Some sf"
  shows "RunQuery1RVV_decode t
         = Some (map (\<lambda>r. (rvv_decode (rl_extendedprice r) sf, rvv_decode (rl_discount r) sf,
                            rvv_decode (rl_tax r) sf, rvv_decode (rl_quantity r) sf)) c0)"
  using for_rows_in_bounds[of "length c0" c0
      "\<lambda>r. (rvv_decode (rl_extendedprice r) sf, rvv_decode (rl_discount r) sf,
            rvv_decode (rl_tax r) sf, rvv_decode (rl_quantity r) sf)"]
  by (simp add: RunQuery1RVV_decode_def assms chunk0_def num_rows_def)

lemma RunQuery1RVV_more_rows:
  assumes "rl_chunks t = c0 # rest" "concat rest \<noteq> []" "rl_extendedprice_type t = Some sf"
  shows "RunQuery1RVV_decode t = None"
proof -
  have "length c0 < num_rows (c0 # rest)" using assms(2) by (simp add: num_rows_def)
  then show ?thesis
    using for_rows_out_of_bounds[of c0 "num_rows (c0 # rest)"]
    by (simp add: RunQuery1RVV_decode_def assms(1,3) chunk0_def)
qed


text \<open>
  Claim C9. When the table has exactly one chunk, the accesses of the three RVV programs
  to chunk 0 stay inside it, and the result covers every row of the table: the set of late
  order keys of Query 4, and the decoded arrays of Query 6 and Query 1. When a later chunk
  holds a row, the row count of the table exceeds the length of chunk 0 and each program
  reads outside chunk 0; a table without a chunk has no chunk 0 to read.
\<close>

theorem chunk0_indexing_needs_single_chunk:
  assumes "concat rest \<noteq> []" "concat rest' \<noteq> []"
  shows "rvv_q4_late_order_keys hw [c0]
           = Some {raw (q4_orderkey r) |r. r \<in> set c0
                                          \<and> raw (q4_commitdate r) <s raw (q4_receiptdate r)}
       \<and> RunQuery6_decode \<lparr>rl_extendedprice_type = Some sf, rl_discount_scale = ds,
                            rl_tax_scale = ts, rl_quantity_scale = qs, rl_chunks = [c1]\<rparr>
           = Some (map (\<lambda>r. (rvv_decode (rl_extendedprice r) sf, rvv_decode (rl_discount r) sf)) c1)
       \<and> RunQuery1RVV_decode \<lparr>rl_extendedprice_type = Some sf, rl_discount_scale = ds,
                               rl_tax_scale = ts, rl_quantity_scale = qs, rl_chunks = [c1]\<rparr>
           = Some (map (\<lambda>r. (rvv_decode (rl_extendedprice r) sf, rvv_decode (rl_discount r) sf,
                              rvv_decode (rl_tax r) sf, rvv_decode (rl_quantity r) sf)) c1)
       \<and> rvv_q4_late_order_keys hw (c0 # rest) = None
       \<and> RunQuery6_decode \<lparr>rl_extendedprice_type = Some sf, rl_discount_scale = ds,
                            rl_tax_scale = ts, rl_quantity_scale = qs, rl_chunks = c1 # rest'\<rparr>
           = None
       \<and> RunQuery1RVV_decode \<lparr>rl_extendedprice_type = Some sf, rl_discount_scale = ds,
                               rl_tax_scale = ts, rl_quantity_scale = qs, rl_chunks = c1 # rest'\<rparr>
           = None
       \<and> rvv_q4_late_order_keys hw [] = None
       \<and> RunQuery6_decode \<lparr>rl_extendedprice_type = Some sf, rl_discount_scale = ds,
                            rl_tax_scale = ts, rl_quantity_scale = qs, rl_chunks = []\<rparr> = None
       \<and> RunQuery1RVV_decode \<lparr>rl_extendedprice_type = Some sf, rl_discount_scale = ds,
                               rl_tax_scale = ts, rl_quantity_scale = qs, rl_chunks = []\<rparr> = None"
  using rvv_q4_single_chunk[of hw c0] rvv_q4_more_rows[OF assms(1), of hw c0] rvv_q4_no_chunk[of hw]
    RunQuery6_single_chunk[of "\<lparr>rl_extendedprice_type = Some sf, rl_discount_scale = ds,
                            rl_tax_scale = ts, rl_quantity_scale = qs, rl_chunks = [c1]\<rparr>" c1 sf]
    RunQuery1RVV_single_chunk[of "\<lparr>rl_extendedprice_type = Some sf, rl_discount_scale = ds,
                            rl_tax_scale = ts, rl_quantity_scale = qs, rl_chunks = [c1]\<rparr>" c1 sf]
    RunQuery6_more_rows[of "\<lparr>rl_extendedprice_type = Some sf, rl_discount_scale = ds,
                            rl_tax_scale = ts, rl_quantity_scale = qs, rl_chunks = c1 # rest'\<rparr>"
                         c1 rest' sf, OF _ assms(2)]
    RunQuery1RVV_more_rows[of "\<lparr>rl_extendedprice_type = Some sf, rl_discount_scale = ds,
                            rl_tax_scale = ts, rl_quantity_scale = qs, rl_chunks = c1 # rest'\<rparr>"
                         c1 rest' sf, OF _ assms(2)]
  by (simp add: RunQuery6_decode_def RunQuery1RVV_decode_def chunk0_def)

theorem chunk0_indexing_needs_single_chunk_witness:
  "rvv_q4_late_order_keys 0 [[sample_lineitem]]
           = Some {raw (q4_orderkey r) |r. r \<in> set [sample_lineitem]
                                          \<and> raw (q4_commitdate r) <s raw (q4_receiptdate r)}
       \<and> RunQuery6_decode \<lparr>rl_extendedprice_type = Some 2, rl_discount_scale = 2,
                            rl_tax_scale = 2, rl_quantity_scale = 2,
                            rl_chunks = [[sample_rvv_lineitem]]\<rparr>
           = Some (map (\<lambda>r. (rvv_decode (rl_extendedprice r) 2, rvv_decode (rl_discount r) 2))
                     [sample_rvv_lineitem])
       \<and> RunQuery1RVV_decode \<lparr>rl_extendedprice_type = Some 2, rl_discount_scale = 2,
                               rl_tax_scale = 2, rl_quantity_scale = 2,
                               rl_chunks = [[sample_rvv_lineitem]]\<rparr>
           = Some (map (\<lambda>r. (rvv_decode (rl_extendedprice r) 2, rvv_decode (rl_discount r) 2,
                              rvv_decode (rl_tax r) 2, rvv_decode (rl_quantity r) 2))
                     [sample_rvv_lineitem])
       \<and> rvv_q4_late_order_keys 0 ([sample_lineitem] # [[sample_lineitem]]) = None
       \<and> RunQuery6_decode \<lparr>rl_extendedprice_type = Some 2, rl_discount_scale = 2,
                            rl_tax_scale = 2, rl_quantity_scale = 2,
                            rl_chunks = [sample_rvv_lineitem] # [[sample_rvv_lineitem]]\<rparr>
           = None
       \<and> RunQuery1RVV_decode \<lparr>rl_extendedprice_type = Some 2, rl_discount_scale = 2,
                               rl_tax_scale = 2, rl_quantity_scale = 2,
                               rl_chunks = [sample_rvv_lineitem] # [[sample_rvv_lineitem]]\<rparr>
           = None
       \<and> rvv_q4_late_order_keys 0 [] = None
       \<and> RunQuery6_decode \<lparr>rl_extendedprice_type = Some 2, rl_discount_scale = 2,
                            rl_tax_scale = 2, rl_quantity_scale = 2, rl_chunks = []\<rparr> = None
       \<and> RunQuery1RVV_decode \<lparr>rl_extendedprice_type = Some 2, rl_discount_scale = 2,
                               rl_tax_scale = 2, rl_quantity_scale = 2, rl_chunks = []\<rparr> = None"
  by (rule chunk0_indexing_needs_single_chunk) simp_all


section \<open>Properties of the scale used by the RVV decoders\<close>

lemma fp_round_pow2: "0 < p \<Longrightarrow> fp_round p (2 powi k) = 2 powi k"
  using fp_round_representable[of p 1 k]
  by simp

lemma double_float_separates:
  assumes "0 < x" "8 * x \<le> y"
  shows "fp_round 24 (fp_round 53 x) < fp_round 24 (fp_round 53 y)"
proof -
  define e where "e = ilog2 x"
  have b: "2 powi e \<le> x" "x < 2 powi (e + 1)" using ilog2_bounds[OF assms(1)] by (simp_all add: e_def)
  have "fp_round 53 x \<le> 2 powi (e + 1)"
    using fp_round_pos_bounds[of 53 x] assms(1) by (simp add: e_def)
  then have "fp_round 24 (fp_round 53 x) \<le> fp_round 24 (2 powi (e + 1))"
    by (intro fp_round_mono) simp_all
  then have up: "fp_round 24 (fp_round 53 x) \<le> 2 powi (e + 1)"
    by (simp add: fp_round_pow2)
  have "(2::real) powi (e + 3) = 8 * 2 powi e"
    using power_int_add[of "2::real" e 3] by simp
  then have "2 powi (e + 3) \<le> y" using b(1) assms(2) by linarith
  then have "fp_round 53 (2 powi (e + 3)) \<le> fp_round 53 y"
    by (intro fp_round_mono) simp_all
  then have "2 powi (e + 3) \<le> fp_round 53 y" by (simp add: fp_round_pow2)
  then have "fp_round 24 (2 powi (e + 3)) \<le> fp_round 24 (fp_round 53 y)"
    by (intro fp_round_mono) simp_all
  then have lo: "2 powi (e + 3) \<le> fp_round 24 (fp_round 53 y)" by (simp add: fp_round_pow2)
  have "(2::real) powi (e + 1) < 2 powi (e + 3)"
    by (rule power_int_strict_increasing) simp_all
  then show ?thesis using up lo by linarith
qed

lemma pow10_step:
  assumes "a < b"
  shows "10 * (10::real) powi a \<le> 10 powi b"
proof -
  have "(10::real) powi (a + 1) \<le> 10 powi b"
    using assms by (intro power_int_increasing) simp_all
  moreover have "(10::real) powi (a + 1) = 10 powi a * 10"
    using power_int_add[of "10::real" a 1] by simp
  ultimately show ?thesis by simp
qed

lemma scaled_separates:
  assumes "v \<noteq> 0" "a < b"
  shows "fp_round 24 (fp_round 53 (v / 10 powi a)) \<noteq> fp_round 24 (fp_round 53 (v / 10 powi b))"
proof -
  have pa: "0 < (10::real) powi a" and pb: "0 < (10::real) powi b" by simp_all
  have key: "8 * (w / 10 powi b) \<le> w / 10 powi a" if "0 < w" for w :: real
  proof -
    have "10 * 10 powi a * w \<le> 10 powi b * w"
      using pow10_step[OF assms(2)] that by (intro mult_right_mono) simp_all
    then have "10 * (w / 10 powi b) \<le> w / 10 powi a"
      using pa pb by (simp add: field_simps)
    moreover have "0 < w / 10 powi b" using that pb by simp
    ultimately show ?thesis by linarith
  qed
  show ?thesis
  proof (cases "0 < v")
    case True
    have "0 < v / 10 powi b" using True pb by (rule divide_pos_pos)
    then have "fp_round 24 (fp_round 53 (v / 10 powi b))
               < fp_round 24 (fp_round 53 (v / 10 powi a))"
      using key[OF True] by (rule double_float_separates)
    then show ?thesis by simp
  next
    case False
    then have n: "0 < - v" using assms(1) by simp
    have "0 < (- v) / 10 powi b" using n pb by (rule divide_pos_pos)
    then have "fp_round 24 (fp_round 53 ((- v) / 10 powi b))
               < fp_round 24 (fp_round 53 ((- v) / 10 powi a))"
      using key[OF n] by (rule double_float_separates)
    then have "fp_round 24 (fp_round 53 (- v / 10 powi b))
               < fp_round 24 (fp_round 53 (- v / 10 powi a))"
      by simp
    then have "- fp_round 24 (fp_round 53 (v / 10 powi b)) < - fp_round 24 (fp_round 53 (v / 10 powi a))"
      using fp_round_minus[of 53 "v / 10 powi b"] fp_round_minus[of 53 "v / 10 powi a"]
        fp_round_minus[of 24 "fp_round 53 (v / 10 powi b)"]
        fp_round_minus[of 24 "fp_round 53 (v / 10 powi a)"]
      by simp
    then show ?thesis by simp
  qed
qed

lemma rvv_decode_scale_mismatch:
  assumes "decimal128_value v \<noteq> 0" "s1 \<noteq> s2"
  shows "rvv_decode v s1 \<noteq> rvv_decode v s2"
proof -
  have "sint s1 \<noteq> sint s2"
  proof
    assume "sint s1 = sint s2"
    then have "s1 = s2" by (rule signed_word_eqI)
    then show False using assms(2) by simp
  qed
  then consider "sint s1 < sint s2" | "sint s2 < sint s1" by linarith
  then show ?thesis
  proof cases
    case 1
    then show ?thesis
      using scaled_separates[of "of_int (decimal128_value v)" "sint s1" "sint s2"] assms(1)
      by (simp add: rvv_decode_def double_to_float_def Decimal128_ToDouble_def)
  next
    case 2
    then show ?thesis
      using scaled_separates[of "of_int (decimal128_value v)" "sint s2" "sint s1"] assms(1)
      by (simp add: rvv_decode_def double_to_float_def Decimal128_ToDouble_def)
  qed
qed

lemma true_values_eq_iff:
  assumes "decimal128_value (rl_discount r) \<noteq> 0" "decimal128_value (rl_tax r) \<noteq> 0"
    "decimal128_value (rl_quantity r) \<noteq> 0"
  shows "true_values sf sf sf sf r = true_values sf ds ts qs r \<longleftrightarrow> ds = sf \<and> ts = sf \<and> qs = sf"
  using rvv_decode_scale_mismatch[OF assms(1), of sf ds]
    rvv_decode_scale_mismatch[OF assms(2), of sf ts]
    rvv_decode_scale_mismatch[OF assms(3), of sf qs]
  by (auto simp: true_values_def)

text \<open>
  Claim C10. The RVV programs of Query 1 and Query 6 decode every decimal column with the
  scale of \<open>l_extendedprice\<close>. For a table that has a row whose discount, tax and quantity
  are not zero, the decoded arrays are the true values of the columns exactly when the
  discount, tax and quantity columns (for Query 6: the discount column) declare the same
  scale as the price column.
\<close>

theorem rvv_decoders_use_price_scale:
  assumes "r \<in> set c" "decimal128_value (rl_discount r) \<noteq> 0"
    "decimal128_value (rl_tax r) \<noteq> 0" "decimal128_value (rl_quantity r) \<noteq> 0"
  shows "RunQuery1RVV_decode \<lparr>rl_extendedprice_type = Some sf, rl_discount_scale = ds,
                               rl_tax_scale = ts, rl_quantity_scale = qs, rl_chunks = [c]\<rparr>
           = Some (map (true_values sf sf sf sf) c)
       \<and> RunQuery6_decode \<lparr>rl_extendedprice_type = Some sf, rl_discount_scale = ds,
                            rl_tax_scale = ts, rl_quantity_scale = qs, rl_chunks = [c]\<rparr>
           = Some (map (\<lambda>r. (rvv_decode (rl_extendedprice r) sf, rvv_decode (rl_discount r) sf)) c)
       \<and> ((RunQuery1RVV_decode \<lparr>rl_extendedprice_type = Some sf, rl_discount_scale = ds,
                               rl_tax_scale = ts, rl_quantity_scale = qs, rl_chunks = [c]\<rparr>
            = Some (map (true_values sf ds ts qs) c))
           = (ds = sf \<and> ts = sf \<and> qs = sf))
       \<and> ((RunQuery6_decode \<lparr>rl_extendedprice_type = Some sf, rl_discount_scale = ds,
                            rl_tax_scale = ts, rl_quantity_scale = qs, rl_chunks = [c]\<rparr>
            = Some (map (\<lambda>r. (rvv_decode (rl_extendedprice r) sf, rvv_decode (rl_discount r) ds)) c))
           = (ds = sf))"
proof -
  let ?T = "\<lparr>rl_extendedprice_type = Some sf, rl_discount_scale = ds,
             rl_tax_scale = ts, rl_quantity_scale = qs, rl_chunks = [c]\<rparr>"
  have q1: "RunQuery1RVV_decode ?T = Some (map (true_values sf sf sf sf) c)"
    using RunQuery1RVV_single_chunk[of ?T c sf] by (simp add: true_values_def)
  have q6: "RunQuery6_decode ?T
            = Some (map (\<lambda>r. (rvv_decode (rl_extendedprice r) sf, rvv_decode (rl_discount r) sf)) c)"
    using RunQuery6_single_chunk[of ?T c sf] by simp
  have a: "(map (true_values sf sf sf sf) c = map (true_values sf ds ts qs) c)
           = (ds = sf \<and> ts = sf \<and> qs = sf)"
  proof
    assume "map (true_values sf sf sf sf) c = map (true_values sf ds ts qs) c"
    then have "true_values sf sf sf sf r = true_values sf ds ts qs r"
      using assms(1) by simp
    then show "ds = sf \<and> ts = sf \<and> qs = sf"
      using true_values_eq_iff[OF assms(2-4)] by simp
  next
    assume "ds = sf \<and> ts = sf \<and> qs = sf"
    then show "map (true_values sf sf sf sf) c = map (true_values sf ds ts qs) c" by simp
  qed
  have b: "(map (\<lambda>r. (rvv_decode (rl_extendedprice r) sf, rvv_decode (rl_discount r) sf)) c
            = map (\<lambda>r. (rvv_decode (rl_extendedprice r) sf, rvv_decode (rl_discount r) ds)) c)
           = (ds = sf)"
  proof
    assume "map (\<lambda>r. (rvv_decode (rl_extendedprice r) sf, rvv_decode (rl_discount r) sf)) c
            = map (\<lambda>r. (rvv_decode (rl_extendedprice r) sf, rvv_decode (rl_discount r) ds)) c"
    then have "rvv_decode (rl_discount r) sf = rvv_decode (rl_discount r) ds"
      using assms(1) by simp
    then show "ds = sf" using rvv_decode_scale_mismatch[OF assms(2), of sf ds] by auto
  next
    assume "ds = sf"
    then show "map (\<lambda>r. (rvv_decode (rl_extendedprice r) sf, rvv_decode (rl_discount r) sf)) c
            = map (\<lambda>r. (rvv_decode (rl_extendedprice r) sf, rvv_decode (rl_discount r) ds)) c"
      by simp
  qed
  show ?thesis by (simp only: q1 q6 option.inject a b)
qed

lemma sample_values:
  "decimal128_value (decimal128_bytes 6) = 6" "decimal128_value (decimal128_bytes 2) = 2"
  "decimal128_value (decimal128_bytes 1000) = 1000"
  by (simp_all add: decimal128_value_def decimal128_bytes_def le_bytes_numeral)

theorem rvv_decoders_use_price_scale_witness:
  "RunQuery1RVV_decode \<lparr>rl_extendedprice_type = Some 2, rl_discount_scale = 4,
                               rl_tax_scale = 2, rl_quantity_scale = 2,
                               rl_chunks = [[sample_rvv_lineitem]]\<rparr>
           = Some (map (true_values 2 2 2 2) [sample_rvv_lineitem])
       \<and> RunQuery6_decode \<lparr>rl_extendedprice_type = Some 2, rl_discount_scale = 4,
                            rl_tax_scale = 2, rl_quantity_scale = 2,
                            rl_chunks = [[sample_rvv_lineitem]]\<rparr>
           = Some (map (\<lambda>r. (rvv_decode (rl_extendedprice r) 2, rvv_decode (rl_discount r) 2))
                     [sample_rvv_lineitem])
       \<and> ((RunQuery1RVV_decode \<lparr>rl_extendedprice_type = Some 2, rl_discount_scale = 4,
                               rl_tax_scale = 2, rl_quantity_scale = 2,
                               rl_chunks = [[sample_rvv_lineitem]]\<rparr>
            = Some (map (true_values 2 4 2 2) [sample_rvv_lineitem]))
           = ((4 :: int32) = 2 \<and> (2 :: int32) = 2 \<and> (2 :: int32) = 2))
       \<and> ((RunQuery6_decode \<lparr>rl_extendedprice_type = Some 2, rl_discount_scale = 4,
                            rl_tax_scale = 2, rl_quantity_scale = 2,
                            rl_chunks = [[sample_rvv_lineitem]]\<rparr>
            = Some (map (\<lambda>r. (rvv_decode (rl_extendedprice r) 2, rvv_decode (rl_discount r) 4))
                      [sample_rvv_lineitem]))
           = ((4 :: int32) = 2))"
  by (rule rvv_decoders_use_price_scale[of sample_rvv_lineitem])
     (simp_all add: sample_rvv_lineitem_def sample_values)


section \<open>Properties of the profit accumulators\<close>























































section \<open>Properties of the aggregation of Query 1\<close>

lemma q1_row_step_groups:
  "q1_groups (q1_row_step qs ps ds ts date_1998_09_02 st r)
   = (case row_contribution qs ps ds ts r of
        None \<Rightarrow> q1_groups st
      | Some c \<Rightarrow> apply_contribution (q1_groups st) c)"
  by (simp add: q1_row_step_def row_contribution_def apply_contribution_def Let_def)

lemma q1_rows_groups:
  "q1_groups (fold (\<lambda>r s. q1_row_step qs ps ds ts date_1998_09_02 s r) rows st)
   = fold (\<lambda>c m. apply_contribution m c) (List.map_filter (row_contribution qs ps ds ts) rows)
       (q1_groups st)"
proof (induction rows arbitrary: st)
  case Nil
  show ?case by (simp add: List.map_filter_simps)
next
  case (Cons r rows)
  show ?case
    by (cases "row_contribution qs ps ds ts r")
       (simp_all add: Cons.IH q1_row_step_groups List.map_filter_simps)
qed

lemma q1_chunks_groups:
  "q1_groups (fold q1_chunk_step chunks st)
   = fold (\<lambda>c m. apply_contribution m c) (q1_contributions chunks) (q1_groups st)"
proof (induction chunks arbitrary: st)
  case Nil
  show ?case by (simp add: q1_contributions_def)
next
  case (Cons chunk chunks)
  have "q1_groups (q1_chunk_step chunk st)
        = fold (\<lambda>c m. apply_contribution m c) (chunk_contributions chunk) (q1_groups st)"
    by (simp add: q1_chunk_step_def chunk_contributions_def q1_rows_groups Let_def)
  then show ?case using Cons.IH[of "q1_chunk_step chunk st"]
    by (simp add: q1_contributions_def)
qed

lemma running_sum_simps:
  "running_sum s [] = s" "running_sum s (x # xs) = running_sum (dadd s x) xs"
  by (simp_all add: running_sum_def)

lemma running_sum_error:
  fixes u :: real
  assumes u: "u = 2 powi (- 53)"
  shows "\<bar>running_sum s xs - (s + sum_list xs)\<bar>
         \<le> ((1 + u) ^ length xs - 1) * (\<bar>s\<bar> + sum_list (map abs xs))"
proof (induction xs arbitrary: s)
  case Nil
  show ?case by (simp add: running_sum_simps)
next
  case (Cons x xs)
  define K where "K = (1 + u) ^ length xs - 1"
  define A where "A = \<bar>s\<bar> + \<bar>x\<bar>"
  define B where "B = sum_list (map abs xs)"
  define s' where "s' = dadd s x"
  have upos: "0 \<le> u" by (simp add: u)
  have Kn: "0 \<le> K"
  proof -
    have "(1::real) \<le> (1 + u) ^ length xs" using upos by (intro one_le_power) simp
    then show ?thesis by (simp add: K_def)
  qed
  have An: "0 \<le> A" by (simp add: A_def)
  have Bn: "0 \<le> B" unfolding B_def by (rule sum_list_nonneg) auto
  have r: "\<bar>s' - (s + x)\<bar> \<le> u * \<bar>s + x\<bar>"
    unfolding s'_def dadd_def u using fp_round_rel_error[of 53 "s + x"] by simp
  have sx: "\<bar>s + x\<bar> \<le> A" by (simp add: A_def)
  have "u * \<bar>s + x\<bar> \<le> u * A" using sx upos by (rule mult_left_mono)
  then have r1: "\<bar>s' - (s + x)\<bar> \<le> u * A" using r by linarith
  have "\<bar>s'\<bar> \<le> \<bar>s + x\<bar> + \<bar>s' - (s + x)\<bar>" by linarith
  then have s'b: "\<bar>s'\<bar> \<le> A + u * A" using sx r1 by linarith
  have ih: "\<bar>running_sum s' xs - (s' + sum_list xs)\<bar> \<le> K * (\<bar>s'\<bar> + B)"
    unfolding K_def B_def by (rule Cons.IH)
  have "K * (\<bar>s'\<bar> + B) \<le> K * (A + u * A + B)"
    using s'b Kn by (intro mult_left_mono) simp_all
  then have ih': "\<bar>running_sum s' xs - (s' + sum_list xs)\<bar> \<le> K * (A + u * A + B)"
    using ih by linarith
  have "\<bar>running_sum s' xs - (s + x + sum_list xs)\<bar>
        \<le> \<bar>running_sum s' xs - (s' + sum_list xs)\<bar> + \<bar>s' - (s + x)\<bar>" by linarith
  then have tot: "\<bar>running_sum s' xs - (s + x + sum_list xs)\<bar> \<le> K * (A + u * A + B) + u * A"
    using ih' r1 by linarith
  have "((1 + u) * (K + 1) - 1) * (A + B) - (K * (A + u * A + B) + u * A) = u * K * B + u * B"
    by (simp add: algebra_simps)
  moreover have "0 \<le> u * K * B + u * B" using upos Kn Bn by simp
  ultimately have "K * (A + u * A + B) + u * A \<le> ((1 + u) * (K + 1) - 1) * (A + B)"
    by linarith
  then have fin: "\<bar>running_sum s' xs - (s + x + sum_list xs)\<bar> \<le> ((1 + u) * (K + 1) - 1) * (A + B)"
    using tot by linarith
  have lhs_eq: "running_sum s (x # xs) - (s + sum_list (x # xs)) = running_sum s' xs - (s + x + sum_list xs)"
    by (simp add: s'_def running_sum_simps)
  have pw: "(1 + u) ^ length (x # xs) - 1 = (1 + u) * (K + 1) - 1"
    by (simp add: K_def)
  have ab: "\<bar>s\<bar> + sum_list (map abs (x # xs)) = A + B" by (simp add: A_def B_def)
  from fin show ?case by (simp only: lhs_eq pw ab)
qed

lemma running_sum_permutation:
  assumes "mset xs = mset ys"
  shows "\<bar>running_sum 0 xs - running_sum 0 ys\<bar> \<le> summation_tolerance xs"
proof -
  define u :: real where "u = 2 powi (- 53)"
  have len: "length xs = length ys" using assms by (rule mset_eq_length)
  have s: "sum_list xs = sum_list ys"
    using assms by (metis sum_mset_sum_list)
  have "mset (map abs xs) = mset (map abs ys)" using assms by (metis mset_map)
  then have a: "sum_list (map abs xs) = sum_list (map abs ys)"
    by (metis sum_mset_sum_list)
  define E where "E = ((1 + u) ^ length xs - 1) * sum_list (map abs xs)"
  have e1: "\<bar>running_sum 0 xs - sum_list xs\<bar> \<le> E"
    using running_sum_error[OF u_def, of 0 xs] by (simp add: E_def)
  have e2: "\<bar>running_sum 0 ys - sum_list xs\<bar> \<le> E"
    using running_sum_error[OF u_def, of 0 ys] by (simp add: len s a E_def)
  have t: "summation_tolerance xs = 2 * E"
    by (simp only: summation_tolerance_def E_def u_def mult.assoc)
  have "\<bar>running_sum 0 xs - running_sum 0 ys\<bar>
        \<le> \<bar>running_sum 0 xs - sum_list xs\<bar> + \<bar>running_sum 0 ys - sum_list xs\<bar>" by linarith
  then show ?thesis using e1 e2 unfolding t by linarith
qed

lemma group_value_apply_sum_qty:
  "group_value sum_qty (apply_contribution m c) k
   = (if c_key c = k then dadd (group_value sum_qty m k) (c_qty c) else group_value sum_qty m k)"
  by (simp add: group_value_def apply_contribution_def AggregateValues_init_def Let_def
           split: option.splits)

lemma group_value_apply_sum_base_price:
  "group_value sum_base_price (apply_contribution m c) k
   = (if c_key c = k then dadd (group_value sum_base_price m k) (c_price c)
      else group_value sum_base_price m k)"
  by (simp add: group_value_def apply_contribution_def AggregateValues_init_def Let_def
           split: option.splits)

lemma group_value_apply_sum_disc_price:
  "group_value sum_disc_price (apply_contribution m c) k
   = (if c_key c = k then dadd (group_value sum_disc_price m k) (c_disc_price c)
      else group_value sum_disc_price m k)"
  by (simp add: group_value_def apply_contribution_def AggregateValues_init_def Let_def
           split: option.splits)

lemma group_value_apply_sum_charge:
  "group_value sum_charge (apply_contribution m c) k
   = (if c_key c = k then dadd (group_value sum_charge m k) (c_charge c)
      else group_value sum_charge m k)"
  by (simp add: group_value_def apply_contribution_def AggregateValues_init_def Let_def
           split: option.splits)

lemma group_value_apply_sum_disc:
  "group_value sum_disc (apply_contribution m c) k
   = (if c_key c = k then dadd (group_value sum_disc m k) (c_disc c)
      else group_value sum_disc m k)"
  by (simp add: group_value_def apply_contribution_def AggregateValues_init_def Let_def
           split: option.splits)

lemma group_value_apply_count_order:
  "group_value count_order (apply_contribution m c) k
   = (if c_key c = k then group_value count_order m k + 1 else group_value count_order m k)"
  by (simp add: group_value_def apply_contribution_def AggregateValues_init_def Let_def
           split: option.splits)

lemma dom_apply_contribution: "dom (apply_contribution m c) = insert (c_key c) (dom m)"
  by (simp add: apply_contribution_def Let_def)

lemma group_sum_fold:
  assumes step: "\<And>m c. group_value f (apply_contribution m c) k
           = (if c_key c = k then dadd (group_value f m k) (g c) else group_value f m k)"
  shows "group_value f (fold (\<lambda>c m. apply_contribution m c) cs m) k
         = running_sum (group_value f m k) (contributions_to g k cs)"
proof (induction cs arbitrary: m)
  case Nil
  show ?case by (simp add: contributions_to_def running_sum_simps)
next
  case (Cons c cs)
  show ?case using Cons.IH[of "apply_contribution m c"]
    by (simp add: step contributions_to_def running_sum_simps)
qed

lemma group_count_fold:
  "group_value count_order (fold (\<lambda>c m. apply_contribution m c) cs m) k
   = group_value count_order m k + int (length (filter (\<lambda>c. c_key c = k) cs))"
proof (induction cs arbitrary: m)
  case Nil
  show ?case by simp
next
  case (Cons c cs)
  show ?case using Cons.IH[of "apply_contribution m c"]
    by (simp add: group_value_apply_count_order)
qed

lemma dom_fold_contributions:
  "dom (fold (\<lambda>c m. apply_contribution m c) cs m) = dom m \<union> c_key ` set cs"
proof (induction cs arbitrary: m)
  case Nil
  show ?case by simp
next
  case (Cons c cs)
  show ?case using Cons.IH[of "apply_contribution m c"]
    by (simp add: dom_apply_contribution)
qed

lemma q1_main_groups:
  "q1_main chunks key
   = map_option finalize_group
       (fold (\<lambda>c m. apply_contribution m c) (q1_contributions chunks) Map.empty key)"
  by (simp add: q1_main_def q1_chunks_groups q1_init_def)

lemma finalize_group_keeps:
  "sum_qty (finalize_group a) = sum_qty a"
  "sum_base_price (finalize_group a) = sum_base_price a"
  "sum_disc_price (finalize_group a) = sum_disc_price a"
  "sum_charge (finalize_group a) = sum_charge a"
  "sum_disc (finalize_group a) = sum_disc a"
  "count_order (finalize_group a) = count_order a"
  by (simp_all add: finalize_group_def)

lemma group_value_finalized:
  assumes "\<And>a. f (finalize_group a) = f a"
  shows "group_value f (q1_main chunks) key
         = group_value f (fold (\<lambda>c m. apply_contribution m c) (q1_contributions chunks) Map.empty) key"
  by (simp add: group_value_def q1_main_groups assms split: option.splits)

lemma q1_main_sum:
  assumes "\<And>a. f (finalize_group a) = f a"
    and "\<And>m c. group_value f (apply_contribution m c) key
           = (if c_key c = key then dadd (group_value f m key) (g c) else group_value f m key)"
  shows "group_value f (q1_main chunks) key
         = running_sum 0 (contributions_to g key (q1_contributions chunks))"
proof -
  have "group_value f (Map.empty :: GroupKey \<rightharpoonup> AggregateValues) key = 0"
    by (simp add: group_value_def)
  then show ?thesis
    using group_sum_fold[of f key g "q1_contributions chunks" Map.empty, OF assms(2)]
    by (simp add: group_value_finalized[of f, OF assms(1)])
qed

lemma q1_main_count:
  "group_value count_order (q1_main chunks) key
   = int (length (filter (\<lambda>c. c_key c = key) (q1_contributions chunks)))"
  by (simp add: group_value_finalized finalize_group_keeps group_count_fold)
     (simp add: group_value_def)

lemma q1_main_dom: "dom (q1_main chunks) = c_key ` set (q1_contributions chunks)"
proof -
  have "dom (q1_main chunks)
        = dom (fold (\<lambda>c m. apply_contribution m c) (q1_contributions chunks) Map.empty)"
    by (auto simp: q1_main_groups dom_def)
  then show ?thesis by (simp add: dom_fold_contributions)
qed

lemma q1_main_sum_rearranged:
  assumes "\<And>a. f (finalize_group a) = f a"
    and "\<And>m c. group_value f (apply_contribution m c) key
           = (if c_key c = key then dadd (group_value f m key) (g c) else group_value f m key)"
    and "mset (q1_contributions B) = mset (q1_contributions A)"
  shows "\<bar>group_value f (q1_main A) key - group_value f (q1_main B) key\<bar>
         \<le> summation_tolerance (contributions_to g key (q1_contributions A))"
proof -
  have "mset (contributions_to g key (q1_contributions A))
        = mset (contributions_to g key (q1_contributions B))"
    using assms(3) by (simp add: contributions_to_def)
  then show ?thesis
    unfolding q1_main_sum[of f key g, OF assms(1,2)] by (rule running_sum_permutation)
qed

lemma mset_concat_map:
  "mset (concat (map f xs)) = (\<Sum>x\<in>#mset xs. mset (f x))"
  by (induction xs) simp_all

lemma permuted_chunks_contributions:
  assumes "mset B = mset A"
  shows "mset (q1_contributions B) = mset (q1_contributions A)"
  by (simp add: q1_contributions_def mset_concat_map assms)

lemma map_filter_append:
  "List.map_filter f (xs @ ys) = List.map_filter f xs @ List.map_filter f ys"
  by (simp add: List.map_filter_def)

lemma split_chunk_contributions:
  "concat (map chunk_contributions (split_chunk n chunk)) = chunk_contributions chunk"
  by (simp add: split_chunk_def chunk_contributions_def flip: map_filter_append)

lemma split_chunks_contributions:
  "q1_contributions (xs @ split_chunk n chunk @ ys) = q1_contributions (xs @ chunk # ys)"
  by (simp add: q1_contributions_def split_chunk_contributions)

lemma rearranged_contributions:
  assumes "mset B = mset A
     \<or> (\<exists>xs chunk ys n. A = xs @ chunk # ys \<and> B = xs @ split_chunk n chunk @ ys)
     \<or> mset (q1_contributions B) = mset (q1_contributions A)"
  shows "mset (q1_contributions B) = mset (q1_contributions A)"
  using assms
proof (elim disjE exE conjE)
  assume "mset B = mset A"
  then show ?thesis by (rule permuted_chunks_contributions)
next
  fix xs chunk ys n
  assume "A = xs @ chunk # ys" "B = xs @ split_chunk n chunk @ ys"
  then show ?thesis by (simp only: split_chunks_contributions)
next
  assume "mset (q1_contributions B) = mset (q1_contributions A)"
  then show ?thesis .
qed

text \<open>
  Claim C6. Let \<open>B\<close> be the chunks of \<open>A\<close> in another order, or \<open>A\<close> with one chunk split
  in two at any row, or any table whose accepted rows add the same multiset of
  contributions. Then the finalized results of Query 1 on \<open>A\<close> and on \<open>B\<close> have the same
  groups and the same count in every group, and each of the five sums of a group differs
  between the two by at most the tolerance of a sum of \<open>n\<close> values in \<open>double\<close>, where \<open>n\<close>
  is the number of rows of the group: \<open>2 * ((1 + 2^-53)^n - 1)\<close> times the sum of the
  magnitudes of the contributions. Addition in \<open>double\<close> is commutative but rounds, so the
  sums agree within this tolerance and not bit for bit. The results themselves are those
  of the rows: the groups are the keys of the accepted rows, the count of a group is the
  number of its accepted rows, and each sum is the sum, from left to right, of what the
  rows of the group add to it.
\<close>

theorem aggregation_order_independent:
  assumes "mset B = mset A
     \<or> (\<exists>xs chunk ys n. A = xs @ chunk # ys \<and> B = xs @ split_chunk n chunk @ ys)
     \<or> mset (q1_contributions B) = mset (q1_contributions A)"
  shows "dom (q1_main B) = dom (q1_main A)
    \<and> group_value count_order (q1_main B) key = group_value count_order (q1_main A) key
    \<and> \<bar>group_value sum_qty (q1_main A) key - group_value sum_qty (q1_main B) key\<bar>
        \<le> summation_tolerance (contributions_to c_qty key (q1_contributions A))
    \<and> \<bar>group_value sum_base_price (q1_main A) key - group_value sum_base_price (q1_main B) key\<bar>
        \<le> summation_tolerance (contributions_to c_price key (q1_contributions A))
    \<and> \<bar>group_value sum_disc_price (q1_main A) key - group_value sum_disc_price (q1_main B) key\<bar>
        \<le> summation_tolerance (contributions_to c_disc_price key (q1_contributions A))
    \<and> \<bar>group_value sum_charge (q1_main A) key - group_value sum_charge (q1_main B) key\<bar>
        \<le> summation_tolerance (contributions_to c_charge key (q1_contributions A))
    \<and> \<bar>group_value sum_disc (q1_main A) key - group_value sum_disc (q1_main B) key\<bar>
        \<le> summation_tolerance (contributions_to c_disc key (q1_contributions A))
    \<and> dom (q1_main A) = c_key ` set (q1_contributions A)
    \<and> group_value count_order (q1_main A) key
        = int (length (contributions_to c_qty key (q1_contributions A)))
    \<and> group_value sum_qty (q1_main A) key
        = running_sum 0 (contributions_to c_qty key (q1_contributions A))
    \<and> group_value sum_base_price (q1_main A) key
        = running_sum 0 (contributions_to c_price key (q1_contributions A))
    \<and> group_value sum_disc_price (q1_main A) key
        = running_sum 0 (contributions_to c_disc_price key (q1_contributions A))
    \<and> group_value sum_charge (q1_main A) key
        = running_sum 0 (contributions_to c_charge key (q1_contributions A))
    \<and> group_value sum_disc (q1_main A) key
        = running_sum 0 (contributions_to c_disc key (q1_contributions A))"
proof -
  have m: "mset (q1_contributions B) = mset (q1_contributions A)"
    using assms by (rule rearranged_contributions)
  have d: "dom (q1_main B) = dom (q1_main A)"
    using mset_eq_setD[OF m] by (simp add: q1_main_dom)
  have "mset (filter (\<lambda>c. c_key c = key) (q1_contributions B))
        = mset (filter (\<lambda>c. c_key c = key) (q1_contributions A))"
    using m by simp
  then have "length (filter (\<lambda>c. c_key c = key) (q1_contributions B))
        = length (filter (\<lambda>c. c_key c = key) (q1_contributions A))"
    by (rule mset_eq_length)
  then have c: "group_value count_order (q1_main B) key = group_value count_order (q1_main A) key"
    by (simp add: q1_main_count)
  note s1 = q1_main_sum_rearranged[of sum_qty key c_qty B A,
              OF finalize_group_keeps(1) group_value_apply_sum_qty m]
  note s2 = q1_main_sum_rearranged[of sum_base_price key c_price B A,
              OF finalize_group_keeps(2) group_value_apply_sum_base_price m]
  note s3 = q1_main_sum_rearranged[of sum_disc_price key c_disc_price B A,
              OF finalize_group_keeps(3) group_value_apply_sum_disc_price m]
  note s4 = q1_main_sum_rearranged[of sum_charge key c_charge B A,
              OF finalize_group_keeps(4) group_value_apply_sum_charge m]
  note s5 = q1_main_sum_rearranged[of sum_disc key c_disc B A,
              OF finalize_group_keeps(5) group_value_apply_sum_disc m]
  have n: "group_value count_order (q1_main A) key
           = int (length (contributions_to c_qty key (q1_contributions A)))"
    by (simp add: q1_main_count contributions_to_def)
  note v1 = q1_main_sum[of sum_qty key c_qty A,
              OF finalize_group_keeps(1) group_value_apply_sum_qty]
  note v2 = q1_main_sum[of sum_base_price key c_price A,
              OF finalize_group_keeps(2) group_value_apply_sum_base_price]
  note v3 = q1_main_sum[of sum_disc_price key c_disc_price A,
              OF finalize_group_keeps(3) group_value_apply_sum_disc_price]
  note v4 = q1_main_sum[of sum_charge key c_charge A,
              OF finalize_group_keeps(4) group_value_apply_sum_charge]
  note v5 = q1_main_sum[of sum_disc key c_disc A,
              OF finalize_group_keeps(5) group_value_apply_sum_disc]
  from d c s1 s2 s3 s4 s5 q1_main_dom[of A] n v1 v2 v3 v4 v5 show ?thesis by blast
qed

theorem aggregation_order_independent_witness:
  "dom (q1_main [q1_sample_chunk 2000, q1_sample_chunk 1000])
     = dom (q1_main [q1_sample_chunk 1000, q1_sample_chunk 2000])
   \<and> group_value count_order (q1_main [q1_sample_chunk 2000, q1_sample_chunk 1000])
        \<lparr>returnflag = ''A'', linestatus = ''F''\<rparr>
       = group_value count_order (q1_main [q1_sample_chunk 1000, q1_sample_chunk 2000])
           \<lparr>returnflag = ''A'', linestatus = ''F''\<rparr>
   \<and> \<bar>group_value sum_qty (q1_main [q1_sample_chunk 1000, q1_sample_chunk 2000])
         \<lparr>returnflag = ''A'', linestatus = ''F''\<rparr>
       - group_value sum_qty (q1_main [q1_sample_chunk 2000, q1_sample_chunk 1000])
           \<lparr>returnflag = ''A'', linestatus = ''F''\<rparr>\<bar>
       \<le> summation_tolerance (contributions_to c_qty \<lparr>returnflag = ''A'', linestatus = ''F''\<rparr>
            (q1_contributions [q1_sample_chunk 1000, q1_sample_chunk 2000]))
   \<and> \<bar>group_value sum_base_price (q1_main [q1_sample_chunk 1000, q1_sample_chunk 2000])
         \<lparr>returnflag = ''A'', linestatus = ''F''\<rparr>
       - group_value sum_base_price (q1_main [q1_sample_chunk 2000, q1_sample_chunk 1000])
           \<lparr>returnflag = ''A'', linestatus = ''F''\<rparr>\<bar>
       \<le> summation_tolerance (contributions_to c_price \<lparr>returnflag = ''A'', linestatus = ''F''\<rparr>
            (q1_contributions [q1_sample_chunk 1000, q1_sample_chunk 2000]))
   \<and> \<bar>group_value sum_disc_price (q1_main [q1_sample_chunk 1000, q1_sample_chunk 2000])
         \<lparr>returnflag = ''A'', linestatus = ''F''\<rparr>
       - group_value sum_disc_price (q1_main [q1_sample_chunk 2000, q1_sample_chunk 1000])
           \<lparr>returnflag = ''A'', linestatus = ''F''\<rparr>\<bar>
       \<le> summation_tolerance (contributions_to c_disc_price \<lparr>returnflag = ''A'', linestatus = ''F''\<rparr>
            (q1_contributions [q1_sample_chunk 1000, q1_sample_chunk 2000]))
   \<and> \<bar>group_value sum_charge (q1_main [q1_sample_chunk 1000, q1_sample_chunk 2000])
         \<lparr>returnflag = ''A'', linestatus = ''F''\<rparr>
       - group_value sum_charge (q1_main [q1_sample_chunk 2000, q1_sample_chunk 1000])
           \<lparr>returnflag = ''A'', linestatus = ''F''\<rparr>\<bar>
       \<le> summation_tolerance (contributions_to c_charge \<lparr>returnflag = ''A'', linestatus = ''F''\<rparr>
            (q1_contributions [q1_sample_chunk 1000, q1_sample_chunk 2000]))
   \<and> \<bar>group_value sum_disc (q1_main [q1_sample_chunk 1000, q1_sample_chunk 2000])
         \<lparr>returnflag = ''A'', linestatus = ''F''\<rparr>
       - group_value sum_disc (q1_main [q1_sample_chunk 2000, q1_sample_chunk 1000])
           \<lparr>returnflag = ''A'', linestatus = ''F''\<rparr>\<bar>
       \<le> summation_tolerance (contributions_to c_disc \<lparr>returnflag = ''A'', linestatus = ''F''\<rparr>
            (q1_contributions [q1_sample_chunk 1000, q1_sample_chunk 2000]))
   \<and> dom (q1_main [q1_sample_chunk 1000, q1_sample_chunk 2000]) = c_key ` set (q1_contributions [q1_sample_chunk 1000, q1_sample_chunk 2000])
   \<and> group_value count_order (q1_main [q1_sample_chunk 1000, q1_sample_chunk 2000]) \<lparr>returnflag = ''A'', linestatus = ''F''\<rparr>
       = int (length (contributions_to c_qty \<lparr>returnflag = ''A'', linestatus = ''F''\<rparr> (q1_contributions [q1_sample_chunk 1000, q1_sample_chunk 2000])))
   \<and> group_value sum_qty (q1_main [q1_sample_chunk 1000, q1_sample_chunk 2000]) \<lparr>returnflag = ''A'', linestatus = ''F''\<rparr>
       = running_sum 0 (contributions_to c_qty \<lparr>returnflag = ''A'', linestatus = ''F''\<rparr> (q1_contributions [q1_sample_chunk 1000, q1_sample_chunk 2000]))
   \<and> group_value sum_base_price (q1_main [q1_sample_chunk 1000, q1_sample_chunk 2000]) \<lparr>returnflag = ''A'', linestatus = ''F''\<rparr>
       = running_sum 0 (contributions_to c_price \<lparr>returnflag = ''A'', linestatus = ''F''\<rparr> (q1_contributions [q1_sample_chunk 1000, q1_sample_chunk 2000]))
   \<and> group_value sum_disc_price (q1_main [q1_sample_chunk 1000, q1_sample_chunk 2000]) \<lparr>returnflag = ''A'', linestatus = ''F''\<rparr>
       = running_sum 0 (contributions_to c_disc_price \<lparr>returnflag = ''A'', linestatus = ''F''\<rparr> (q1_contributions [q1_sample_chunk 1000, q1_sample_chunk 2000]))
   \<and> group_value sum_charge (q1_main [q1_sample_chunk 1000, q1_sample_chunk 2000]) \<lparr>returnflag = ''A'', linestatus = ''F''\<rparr>
       = running_sum 0 (contributions_to c_charge \<lparr>returnflag = ''A'', linestatus = ''F''\<rparr> (q1_contributions [q1_sample_chunk 1000, q1_sample_chunk 2000]))
   \<and> group_value sum_disc (q1_main [q1_sample_chunk 1000, q1_sample_chunk 2000]) \<lparr>returnflag = ''A'', linestatus = ''F''\<rparr>
       = running_sum 0 (contributions_to c_disc \<lparr>returnflag = ''A'', linestatus = ''F''\<rparr> (q1_contributions [q1_sample_chunk 1000, q1_sample_chunk 2000]))"
proof (rule aggregation_order_independent)
  have "mset [q1_sample_chunk 2000, q1_sample_chunk 1000]
        = mset [q1_sample_chunk 1000, q1_sample_chunk 2000]"
    by (simp add: add_mset_commute)
  then show "mset [q1_sample_chunk 2000, q1_sample_chunk 1000]
        = mset [q1_sample_chunk 1000, q1_sample_chunk 2000]
     \<or> (\<exists>xs chunk ys n. [q1_sample_chunk 1000, q1_sample_chunk 2000] = xs @ chunk # ys
           \<and> [q1_sample_chunk 2000, q1_sample_chunk 1000] = xs @ split_chunk n chunk @ ys)
     \<or> mset (q1_contributions [q1_sample_chunk 2000, q1_sample_chunk 1000])
        = mset (q1_contributions [q1_sample_chunk 1000, q1_sample_chunk 2000])"
    by (rule disjI1)
qed

end
